theory Spec2Isabelle
  imports Main "HOL-Library.Word"
begin

unbundle bit_operations_syntax

section \<open>The memory model\<close>

text \<open>
  The allocator of \<^verbatim>\<open>custom_memory_allocator.c\<close> is embedded for an LP64 target
  (x86-64 or AArch64 with the System V ABI): \<^verbatim>\<open>size_t\<close> and pointers are 64-bit
  words whose arithmetic wraps around, the null pointer is the word 0, and both
  \<^verbatim>\<open>struct memory_block\<close> (five 8-byte fields) and \<^verbatim>\<open>struct memory_node\<close>
  (8 + 1 + 7 bytes of padding + 3 * 8) occupy 40 bytes.

  Memory is a typed store: a map from addresses to the record headers that have been
  written there, and a header write replaces one entry of the map. In the C program a
  header is 40 bytes, so the map describes the program's memory as long as no header
  that is read later is partly overwritten by a header written less than 40 bytes away.
  This is so in the heaps called \<open>sound\<close> below, whose records lie one behind the
  other, and along the ordinary runs that keep a heap sound. After a request whose size
  wraps around, headers can overlap, and the map no longer follows the program; the
  general theorems are therefore stated for sound heaps, and the evaluations outside them
  are of calls whose header writes land on fresh memory or exactly on an existing header.

  Reading a header at an address where the store has none is the outcome \<open>Fault\<close>:
  the C program reads whatever bytes are there (the 0xCC fill of a fresh data area, or
  remains of earlier writes) and goes on with them. The heap holds one pool, at the
  address \<open>pool_addr\<close>; a pointer to any other pool cannot be dereferenced.
\<close>

type_synonym addr = "64 word"
type_synonym size_t = "64 word"

record memory_block =
  first :: addr
  upper_limit :: addr
  total_size :: size_t
  used_memory :: size_t
  num_allocations :: size_t

record memory_node =
  node_size :: size_t
  is_used :: bool
  prev :: addr
  nxt :: addr
  pool :: addr

type_synonym store = "addr \<Rightarrow> memory_node option"

record heap =
  pool_addr :: addr
  block :: memory_block
  nodes :: store

text \<open>
  A call either returns (\<open>Ok\<close>), or stops the process at a failed \<^verbatim>\<open>assert\<close>
  (\<open>AssertFail\<close>), or reads a header or a pool that the store does not hold
  (\<open>Fault\<close>).
\<close>

datatype 'a outcome = Ok 'a | AssertFail | Fault

definition MIN_ALIGNMENT :: size_t where
  "MIN_ALIGNMENT = 8"

definition sizeof_memory_node :: size_t where
  "sizeof_memory_node = 40"

definition sizeof_memory_block :: size_t where
  "sizeof_memory_block = 40"

definition MIN_BLOCK_SIZE :: size_t where
  "MIN_BLOCK_SIZE = sizeof_memory_node + MIN_ALIGNMENT"

section \<open>The operations\<close>

text \<open>
  \<^verbatim>\<open>create_memory_pool\<close>: the argument \<open>m\<close> is what \<^verbatim>\<open>malloc(size)\<close> returns
  (0 when it fails); \<open>None\<close> is the NULL result. The data area, filled with the
  byte 0xCC by \<^verbatim>\<open>memset\<close>, holds no header.
\<close>

definition create_memory_pool :: "addr \<Rightarrow> size_t \<Rightarrow> heap option" where
  "create_memory_pool m sz =
     (if sz < MIN_BLOCK_SIZE then None
      else if m = 0 then None
      else Some \<lparr>pool_addr = m,
                 block = \<lparr>first = 0, upper_limit = m + sz, total_size = sz,
                          used_memory = 0, num_allocations = 0\<rparr>,
                 nodes = (\<lambda>_. None)\<rparr>)"

definition align_size :: "size_t \<Rightarrow> size_t" where
  "align_size sz = (sz + (MIN_ALIGNMENT - 1)) AND NOT (MIN_ALIGNMENT - 1)"

text \<open>The five field writes that initialise a fresh header.\<close>

definition init_node :: "size_t \<Rightarrow> addr \<Rightarrow> addr \<Rightarrow> addr \<Rightarrow> memory_node" where
  "init_node aligned_size p n pl =
     \<lparr>node_size = aligned_size, is_used = True, prev = p, nxt = n, pool = pl\<rparr>"

text \<open>The two counter updates that every successful branch of \<^verbatim>\<open>pool_alloc\<close> performs.\<close>

definition account :: "memory_block \<Rightarrow> size_t \<Rightarrow> memory_block" where
  "account b aligned_size =
     b\<lparr>used_memory := used_memory b + (aligned_size + sizeof_memory_node),
       num_allocations := num_allocations b + 1\<rparr>"

text \<open>
  The body of the successful branch of the gap walk (source lines 137 to 152): the new
  header is written at \<open>current_end\<close>, then \<^verbatim>\<open>current->next->prev\<close> and
  \<^verbatim>\<open>current->next\<close> are read and written through the store, in the order of the
  source.
\<close>

definition insert_after :: "heap \<Rightarrow> addr \<Rightarrow> size_t \<Rightarrow> addr \<Rightarrow> memory_node \<Rightarrow> addr
    \<Rightarrow> (heap \<times> addr) outcome" where
  "insert_after s pl aligned_size current c current_end =
     (let h1 = (nodes s)(current_end \<mapsto> init_node aligned_size current (nxt c) pl) in
      case h1 current of
        None \<Rightarrow> Fault
      | Some c1 \<Rightarrow>
          (case (if nxt c1 \<noteq> 0
                 then (case h1 (nxt c1) of
                         None \<Rightarrow> None
                       | Some x \<Rightarrow> Some (h1(nxt c1 \<mapsto> x\<lparr>prev := current_end\<rparr>)))
                 else Some h1) of
             None \<Rightarrow> Fault
           | Some h2 \<Rightarrow>
               (case h2 current of
                  None \<Rightarrow> Fault
                | Some c2 \<Rightarrow>
                    Ok (s\<lparr>nodes := h2(current \<mapsto> c2\<lparr>nxt := current_end\<rparr>),
                          block := account (block s) aligned_size\<rparr>,
                        current_end + sizeof_memory_node))))"

text \<open>
  The \<^verbatim>\<open>while (current)\<close> loop of \<^verbatim>\<open>pool_alloc\<close>. It follows the \<^verbatim>\<open>next\<close>
  pointers and need not terminate on a cyclic list: \<open>None\<close> is the run that never
  returns.
\<close>

partial_function (option) walk :: "heap \<Rightarrow> addr \<Rightarrow> size_t \<Rightarrow> addr \<Rightarrow> (heap \<times> addr) outcome option" where
  "walk s pl aligned_size current =
     (if current = 0 then Some (Ok (s, 0))
      else
        (case nodes s current of
           None \<Rightarrow> Some Fault
         | Some c \<Rightarrow>
             (let current_end = current + sizeof_memory_node + node_size c;
                  gap_size = (if nxt c \<noteq> 0 then nxt c - current_end
                              else upper_limit (block s) - current_end)
              in if gap_size \<ge> aligned_size + sizeof_memory_node
                 then Some (insert_after s pl aligned_size current c current_end)
                 else walk s pl aligned_size (nxt c))))"

declare walk.simps [code]

definition pool_alloc :: "heap \<Rightarrow> addr \<Rightarrow> size_t \<Rightarrow> (heap \<times> addr) outcome option" where
  "pool_alloc s pl sz =
     (if pl = 0 then Some AssertFail
      else if pl \<noteq> pool_addr s then Some Fault
      else
        (let aligned_size = align_size sz in
         if aligned_size = 0 then Some (Ok (s, 0))
         else if aligned_size + sizeof_memory_node
                   > total_size (block s) - used_memory (block s)
         then Some (Ok (s, 0))
         else
           (let pool_start = pl + sizeof_memory_block in
            if first (block s) = 0
            then Some (Ok (s\<lparr>nodes := (nodes s)(pool_start \<mapsto> init_node aligned_size 0 0 pl),
                             block := (account (block s) aligned_size)\<lparr>first := pool_start\<rparr>\<rparr>,
                           pool_start + sizeof_memory_node))
            else
              (let initial_gap = first (block s) - pool_start in
               if initial_gap \<ge> aligned_size + sizeof_memory_node
               then
                 (let h1 = (nodes s)(pool_start \<mapsto>
                              init_node aligned_size 0 (first (block s)) pl)
                  in case h1 (first (block s)) of
                       None \<Rightarrow> Some Fault
                     | Some f \<Rightarrow>
                         Some (Ok (s\<lparr>nodes := h1(first (block s) \<mapsto> f\<lparr>prev := pool_start\<rparr>),
                                     block := (account (block s) aligned_size)
                                                \<lparr>first := pool_start\<rparr>\<rparr>,
                                   pool_start + sizeof_memory_node)))
               else walk s pl aligned_size (first (block s))))))"

text \<open>
  \<^verbatim>\<open>pool_free\<close>. The pool is reached through \<^verbatim>\<open>node->pool\<close>; every read of a field
  of \<^verbatim>\<open>node\<close> after a write goes through the updated store.
\<close>

definition pool_free :: "heap \<Rightarrow> addr \<Rightarrow> heap outcome" where
  "pool_free s ptr =
     (if ptr = 0 then Ok s
      else
        (let node = ptr - sizeof_memory_node in
         case nodes s node of
           None \<Rightarrow> Fault
         | Some n \<Rightarrow>
             if \<not> is_used n then AssertFail
             else if pool n \<noteq> pool_addr s then Fault
             else
               (let b1 = (block s)\<lparr>used_memory :=
                            used_memory (block s) - (node_size n + sizeof_memory_node)\<rparr>;
                    b2 = b1\<lparr>num_allocations := num_allocations b1 - 1\<rparr>;
                    n1 = n\<lparr>is_used := False\<rparr>;
                    h1 = (nodes s)(node \<mapsto> n1)
                in case (if prev n1 \<noteq> 0
                         then (case h1 (prev n1) of
                                 None \<Rightarrow> None
                               | Some p \<Rightarrow> Some (b2, h1(prev n1 \<mapsto> p\<lparr>nxt := nxt n1\<rparr>)))
                         else Some (b2\<lparr>first := nxt n1\<rparr>, h1)) of
                     None \<Rightarrow> Fault
                   | Some (b3, h2) \<Rightarrow>
                       (case h2 node of
                          None \<Rightarrow> Fault
                        | Some n2 \<Rightarrow>
                            if nxt n2 \<noteq> 0
                            then (case h2 (nxt n2) of
                                    None \<Rightarrow> Fault
                                  | Some x \<Rightarrow>
                                      Ok (s\<lparr>block := b3,
                                            nodes := h2(nxt n2 \<mapsto> x\<lparr>prev := prev n2\<rparr>)\<rparr>))
                            else Ok (s\<lparr>block := b3, nodes := h2\<rparr>)))))"

text \<open>\<^verbatim>\<open>get_pool_stats\<close> with its three out-parameters, as a triple.\<close>

definition get_pool_stats :: "heap \<Rightarrow> addr \<Rightarrow> (size_t \<times> size_t \<times> size_t) outcome" where
  "get_pool_stats s pl =
     (if pl = 0 then AssertFail
      else if pl \<noteq> pool_addr s then Fault
      else Ok (total_size (block s), used_memory (block s), num_allocations (block s)))"

section \<open>Abstraction of a heap\<close>

text \<open>
  The records reachable from the list head, as the list of their addresses.
  \<open>dlseg h q p as r\<close>: following \<^verbatim>\<open>next\<close> from \<open>p\<close> visits exactly the
  addresses \<open>as\<close> and then reaches \<open>r\<close>; \<open>q\<close> is what the first record's
  \<^verbatim>\<open>prev\<close> holds, and every further \<^verbatim>\<open>prev\<close> points one record back.
\<close>

fun dlseg :: "store \<Rightarrow> addr \<Rightarrow> addr \<Rightarrow> addr list \<Rightarrow> addr \<Rightarrow> bool" where
  "dlseg h q p [] r = (p = r)"
| "dlseg h q p (a # as) r =
     (p = a \<and> a \<noteq> 0 \<and>
      (case h a of None \<Rightarrow> False | Some n \<Rightarrow> prev n = q \<and> dlseg h a (nxt n) as r))"

definition chain :: "store \<Rightarrow> addr \<Rightarrow> addr list \<Rightarrow> bool" where
  "chain h p as = dlseg h 0 p as 0"

text \<open>The bytes a record occupies: its header and its aligned size, as a natural number.\<close>

definition footprint :: "memory_node \<Rightarrow> nat" where
  "footprint n = unat (node_size n) + 40"

fun live_sum :: "store \<Rightarrow> addr list \<Rightarrow> nat" where
  "live_sum h [] = 0"
| "live_sum h (a # as) = (case h a of None \<Rightarrow> 0 | Some n \<Rightarrow> footprint n) + live_sum h as"

text \<open>
  \<open>laid_out h lo hi as\<close>: the records \<open>as\<close> lie in ascending address order inside
  \<open>[lo, hi)\<close>, each ending no later than the next one starts (addresses as natural
  numbers, so nothing wraps).
\<close>

fun laid_out :: "store \<Rightarrow> nat \<Rightarrow> nat \<Rightarrow> addr list \<Rightarrow> bool" where
  "laid_out h lo hi [] = (lo \<le> hi)"
| "laid_out h lo hi (a # as) =
     (case h a of None \<Rightarrow> False
      | Some n \<Rightarrow> lo \<le> unat a \<and> laid_out h (unat a + footprint n) hi as)"

text \<open>
  The gaps of a layout in address order, each as (start, length): before the first
  record, between two records, and between the last record and the upper bound.
\<close>

fun gaps :: "store \<Rightarrow> nat \<Rightarrow> nat \<Rightarrow> addr list \<Rightarrow> (nat \<times> nat) list" where
  "gaps h lo hi [] = [(lo, hi - lo)]"
| "gaps h lo hi (a # as) =
     (lo, unat a - lo) #
     (case h a of None \<Rightarrow> [] | Some n \<Rightarrow> gaps h (unat a + footprint n) hi as)"

fun owned :: "store \<Rightarrow> addr \<Rightarrow> addr list \<Rightarrow> bool" where
  "owned h pl [] = True"
| "owned h pl (a # as) =
     ((case h a of None \<Rightarrow> False | Some n \<Rightarrow> is_used n \<and> pool n = pl) \<and> owned h pl as)"

definition data_start :: "heap \<Rightarrow> nat" where
  "data_start s = unat (pool_addr s) + 40"

definition data_end :: "heap \<Rightarrow> nat" where
  "data_end s = unat (pool_addr s) + unat (total_size (block s))"

text \<open>The pointer structure: a null-terminated doubly linked list of in-use records of this pool.\<close>

definition linked :: "heap \<Rightarrow> addr list \<Rightarrow> bool" where
  "linked s as \<longleftrightarrow>
     pool_addr s \<noteq> 0 \<and> chain (nodes s) (first (block s)) as \<and> distinct as \<and>
     owned (nodes s) (pool_addr s) as"

text \<open>The counters agree with the list.\<close>

definition counted :: "heap \<Rightarrow> addr list \<Rightarrow> bool" where
  "counted s as \<longleftrightarrow>
     unat (used_memory (block s)) = live_sum (nodes s) as \<and>
     unat (num_allocations (block s)) = length as"

text \<open>
  The geometry: the arena \<open>[pool_addr, pool_addr + total_size)\<close> that \<^verbatim>\<open>malloc\<close>
  returned lies below the last 40 bytes of the address space, \<open>upper_limit\<close> is its
  end, and the records are laid out inside the data area.
\<close>

definition placed :: "heap \<Rightarrow> addr list \<Rightarrow> bool" where
  "placed s as \<longleftrightarrow>
     data_end s + 40 < 2 ^ 64 \<and> 40 \<le> unat (total_size (block s)) \<and>
     upper_limit (block s) = pool_addr s + total_size (block s) \<and>
     laid_out (nodes s) (data_start s) (data_end s) as"

definition pool_wf :: "heap \<Rightarrow> addr list \<Rightarrow> bool" where
  "pool_wf s as \<longleftrightarrow> linked s as \<and> counted s as \<and> placed s as"

text \<open>
  The heap that the branch of \<^verbatim>\<open>pool_alloc\<close> for the empty list leaves when the
  request fits \<open>total_size\<close> but not the data area: a single record at the start of the
  data area that ends beyond \<open>upper_limit\<close>, by less than 40 bytes. Here the arena lies
  below the last 80 bytes of the address space. A heap is sound when it is well formed
  or of this shape.
\<close>

definition overhang :: "heap \<Rightarrow> addr list \<Rightarrow> bool" where
  "overhang s as \<longleftrightarrow>
     linked s as \<and> counted s as \<and> data_end s + 80 < 2 ^ 64 \<and>
     40 \<le> unat (total_size (block s)) \<and>
     upper_limit (block s) = pool_addr s + total_size (block s) \<and>
     as = [pool_addr s + sizeof_memory_block] \<and>
     (case nodes s (pool_addr s + sizeof_memory_block) of
        None \<Rightarrow> False
      | Some n \<Rightarrow> unat (total_size (block s)) < footprint n + 40 \<and>
                  footprint n \<le> unat (total_size (block s)))"

definition sound :: "heap \<Rightarrow> addr list \<Rightarrow> bool" where
  "sound s as \<longleftrightarrow> pool_wf s as \<or> overhang s as"

text \<open>Two stores agree on the records \<open>as\<close>: same size, flag and owner at each of them.\<close>

definition agree :: "store \<Rightarrow> store \<Rightarrow> addr list \<Rightarrow> bool" where
  "agree h h' as \<longleftrightarrow>
     (\<forall>b \<in> set as. \<exists>m m'. h b = Some m \<and> h' b = Some m' \<and> node_size m' = node_size m \<and>
        is_used m' = is_used m \<and> pool m' = pool m)"

text \<open>The store and the heap that a returning \<^verbatim>\<open>pool_free\<close> of the record \<open>n\<close> at \<open>a\<close> leaves.\<close>

definition freed_store :: "store \<Rightarrow> addr \<Rightarrow> memory_node \<Rightarrow> store" where
  "freed_store h a n =
     (let h1 = h(a \<mapsto> n\<lparr>is_used := False\<rparr>);
          h2 = (if prev n \<noteq> 0 then h1(prev n \<mapsto> (the (h1 (prev n)))\<lparr>nxt := nxt n\<rparr>) else h1)
      in if nxt n \<noteq> 0 then h2(nxt n \<mapsto> (the (h2 (nxt n)))\<lparr>prev := prev n\<rparr>) else h2)"

definition freed :: "heap \<Rightarrow> addr \<Rightarrow> memory_node \<Rightarrow> heap" where
  "freed s a n =
     s\<lparr>block := (block s)\<lparr>used_memory := used_memory (block s) - (node_size n + 40),
                           num_allocations := num_allocations (block s) - 1,
                           first := (if prev n \<noteq> 0 then first (block s) else nxt n)\<rparr>,
       nodes := freed_store (nodes s) a n\<rparr>"

text \<open>
  The store that the successful branch of the gap walk leaves: the new header \<open>nd\<close> at
  \<open>e\<close>, behind the record \<open>c\<close> at \<open>a\<close>.
\<close>

definition inserted_store :: "store \<Rightarrow> addr \<Rightarrow> memory_node \<Rightarrow> addr \<Rightarrow> memory_node \<Rightarrow> store" where
  "inserted_store h a c e nd =
     (let h1 = h(e \<mapsto> nd);
          h2 = (if nxt c \<noteq> 0 then h1(nxt c \<mapsto> (the (h1 (nxt c)))\<lparr>prev := e\<rparr>) else h1)
      in h2(a \<mapsto> (the (h2 a))\<lparr>nxt := e\<rparr>))"

text \<open>
  The gap that the loop of \<^verbatim>\<open>pool_alloc\<close> measures behind the record \<open>c\<close> at
  \<open>a\<close>, and the record at which the loop stops when it runs over the list \<open>as\<close>.
\<close>

definition gap_after :: "heap \<Rightarrow> addr \<Rightarrow> memory_node \<Rightarrow> size_t" where
  "gap_after s a c =
     (let current_end = a + sizeof_memory_node + node_size c
      in if nxt c \<noteq> 0 then nxt c - current_end else upper_limit (block s) - current_end)"

fun walk_list :: "heap \<Rightarrow> size_t \<Rightarrow> addr list \<Rightarrow> addr option" where
  "walk_list s al [] = None"
| "walk_list s al (a # as) =
     (case nodes s a of
        None \<Rightarrow> None
      | Some c \<Rightarrow> if al + sizeof_memory_node \<le> gap_after s a c then Some a
                  else walk_list s al as)"

text \<open>
  A caller's run of allocations and frees on the pool. The run is \<open>None\<close> when a
  call does not return (a failed assertion, a fault, or a walk that never ends).
\<close>

datatype op = Alloc size_t | Free addr

fun run :: "heap \<Rightarrow> op list \<Rightarrow> heap option" where
  "run s [] = Some s"
| "run s (Alloc n # ops) =
     (case pool_alloc s (pool_addr s) n of
        Some (Ok (s', p)) \<Rightarrow> run s' ops
      | _ \<Rightarrow> None)"
| "run s (Free p # ops) =
     (case pool_free s p of
        Ok s' \<Rightarrow> run s' ops
      | _ \<Rightarrow> None)"

text \<open>
  An ordinary run: every request's aligned size plus header does not wrap around, and
  every pointer freed is null or a data pointer that an earlier \<^verbatim>\<open>pool_alloc\<close> of the
  run returned and that has not been freed since. The run carries the list of these
  live pointers.
\<close>

fun ordinary_run :: "heap \<Rightarrow> addr list \<Rightarrow> op list \<Rightarrow> (heap \<times> addr list) option" where
  "ordinary_run s live [] = Some (s, live)"
| "ordinary_run s live (Alloc n # ops) =
     (if unat (align_size n) + 40 < 2 ^ 64
      then (case pool_alloc s (pool_addr s) n of
              Some (Ok (s', p)) \<Rightarrow> ordinary_run s' (if p = 0 then live else p # live) ops
            | _ \<Rightarrow> None)
      else None)"
| "ordinary_run s live (Free p # ops) =
     (if p = 0 \<or> p \<in> set live
      then (case pool_free s p of
              Ok s' \<Rightarrow> ordinary_run s' (removeAll p live) ops
            | _ \<Rightarrow> None)
      else None)"

text \<open>Offsets and sizes that are multiples of 8, and a heap in which every header is so.\<close>

definition aligned8 :: "64 word \<Rightarrow> bool" where
  "aligned8 w \<longleftrightarrow> 8 dvd unat w"



text \<open>
  The data pointer that \<^verbatim>\<open>pool_alloc(pool, sz)\<close> returns when it is called right after
  \<^verbatim>\<open>pool_free(ptr)\<close>.
\<close>

definition alloc_after_free :: "heap \<Rightarrow> addr \<Rightarrow> size_t \<Rightarrow> addr outcome option" where
  "alloc_after_free s ptr sz =
     (case pool_free s ptr of
        Ok s1 \<Rightarrow> map_option (map_outcome snd) (pool_alloc s1 (pool_addr s1) sz)
      | AssertFail \<Rightarrow> Some AssertFail
      | Fault \<Rightarrow> Some Fault)"

section \<open>Example heaps\<close>

text \<open>The pool that \<^verbatim>\<open>create_memory_pool(150)\<close> sets up when \<^verbatim>\<open>malloc\<close> returns 4096.\<close>

definition pool150 :: heap where
  "pool150 = \<lparr>pool_addr = 4096,
              block = \<lparr>first = 0, upper_limit = 4246, total_size = 150,
                       used_memory = 0, num_allocations = 0\<rparr>,
              nodes = (\<lambda>_. None)\<rparr>"

text \<open>That pool after \<^verbatim>\<open>pool_alloc(pool, 12)\<close>: one record of 16 bytes at 4136.\<close>

definition pool150_a :: heap where
  "pool150_a = \<lparr>pool_addr = 4096,
                block = \<lparr>first = 4136, upper_limit = 4246, total_size = 150,
                         used_memory = 56, num_allocations = 1\<rparr>,
                nodes = (\<lambda>_. None)(4136 \<mapsto> init_node 16 0 0 4096)\<rparr>"

text \<open>After \<^verbatim>\<open>pool_free\<close> of that record: its header stays behind, marked not in use.\<close>

definition pool150_f :: heap where
  "pool150_f = \<lparr>pool_addr = 4096,
                block = \<lparr>first = 0, upper_limit = 4246, total_size = 150,
                         used_memory = 0, num_allocations = 0\<rparr>,
                nodes = (\<lambda>_. None)(4136 \<mapsto> (init_node 16 0 0 4096)\<lparr>is_used := False\<rparr>)\<rparr>"

text \<open>And after \<^verbatim>\<open>pool_alloc(pool, 4)\<close>: one record of 8 bytes at 4136.\<close>

definition pool150_c :: heap where
  "pool150_c = \<lparr>pool_addr = 4096,
                block = \<lparr>first = 4136, upper_limit = 4246, total_size = 150,
                         used_memory = 48, num_allocations = 1\<rparr>,
                nodes = (\<lambda>_. None)(4136 \<mapsto> init_node 8 0 0 4096)\<rparr>"

text \<open>The fresh pool after \<^verbatim>\<open>pool_alloc(pool, 100)\<close>: one record of 104 bytes at 4136.\<close>

definition pool150_big :: heap where
  "pool150_big = \<lparr>pool_addr = 4096,
                  block = \<lparr>first = 4136, upper_limit = 4246, total_size = 150,
                           used_memory = 144, num_allocations = 1\<rparr>,
                  nodes = (\<lambda>_. None)(4136 \<mapsto> init_node 104 0 0 4096)\<rparr>"

text \<open>
  The fresh pool after \<^verbatim>\<open>pool_alloc(pool, SIZE_MAX - 39)\<close>, a request of
  \<open>2^64 - 40\<close> bytes.
\<close>

definition pool150_over :: heap where
  "pool150_over = \<lparr>pool_addr = 4096,
                   block = \<lparr>first = 4136, upper_limit = 4246, total_size = 150,
                            used_memory = 0, num_allocations = 1\<rparr>,
                   nodes = (\<lambda>_. None)(4136 \<mapsto> init_node 18446744073709551576 0 0 4096)\<rparr>"

text \<open>The pool with the record of 16 bytes after the same request of \<open>2^64 - 40\<close> bytes.\<close>

definition pool150_cyc :: heap where
  "pool150_cyc = \<lparr>pool_addr = 4096,
                  block = \<lparr>first = 4136, upper_limit = 4246, total_size = 150,
                           used_memory = 56, num_allocations = 2\<rparr>,
                  nodes = (\<lambda>_. None)(4136 \<mapsto>
                            \<lparr>node_size = 18446744073709551576, is_used = True, prev = 4136,
                             nxt = 4136, pool = 4096\<rparr>)\<rparr>"

text \<open>A pool of 376 bytes at 4096: the data area is \<open>[4136, 4472)\<close>.\<close>

definition pool376 :: heap where
  "pool376 = \<lparr>pool_addr = 4096,
              block = \<lparr>first = 0, upper_limit = 4472, total_size = 376,
                       used_memory = 0, num_allocations = 0\<rparr>,
              nodes = (\<lambda>_. None)\<rparr>"

text \<open>
  Two fragmented heaps reached from it. In \<open>frag_low\<close> the records at 4280 and 4376
  remain, with gaps of 144, 48 and 48 bytes before, between and behind them. In
  \<open>frag_mid\<close> the records at 4136, 4232 and 4328 remain, with gaps of 48 bytes on
  both sides of the middle one and 96 bytes at the end.
\<close>

definition frag_low :: heap where
  "frag_low = the (run pool376 [Alloc 104, Alloc 8, Alloc 8, Alloc 8, Free 4176, Free 4368])"

definition frag_mid :: heap where
  "frag_mid = the (run pool376 [Alloc 8, Alloc 8, Alloc 8, Alloc 8, Alloc 8, Free 4224, Free 4320])"

section \<open>Word arithmetic\<close>

lemma unat_add64:
  "unat (a::64 word) + unat (b::64 word) < 2 ^ 64 \<Longrightarrow> unat (a + b) = unat a + unat b"
  using unat_add_lem [of a b] by simp

lemma unat_sub64:
  "unat (b::64 word) \<le> unat (a::64 word) \<Longrightarrow> unat (a - b) = unat a - unat b"
  by (simp add: unat_sub word_le_nat_alt)





section \<open>Lists in the store\<close>

lemma dlseg_frame: "u \<notin> set as \<Longrightarrow> dlseg (h(u := v)) q p as r = dlseg h q p as r"
  by (induction as arbitrary: q p) (auto split: option.splits)

lemma dlseg_append:
  "dlseg h q p (xs @ ys) r \<longleftrightarrow> (\<exists>m. dlseg h q p xs m \<and> dlseg h (last (q # xs)) m ys r)"
  by (induction xs arbitrary: q p) (auto split: option.splits)

lemma dlseg_relink_last:
  "dlseg h q p xs m \<Longrightarrow> xs \<noteq> [] \<Longrightarrow> distinct xs \<Longrightarrow> h (last xs) = Some b \<Longrightarrow>
   dlseg (h(last xs \<mapsto> b\<lparr>nxt := r\<rparr>)) q p xs r"
proof (induction xs arbitrary: q p)
  case Nil
  then show ?case by simp
next
  case (Cons a xs)
  show ?case
  proof (cases "xs = []")
    case True
    with Cons.prems show ?thesis by (auto split: option.splits)
  next
    case False
    with Cons.prems Cons.IH show ?thesis
      by (auto split: option.splits)
  qed
qed

lemma dlseg_relink_head:
  "dlseg h q p ys r \<Longrightarrow> ys \<noteq> [] \<Longrightarrow> distinct ys \<Longrightarrow> h (hd ys) = Some b \<Longrightarrow>
   dlseg (h(hd ys \<mapsto> b\<lparr>prev := q'\<rparr>)) q' p ys r"
  by (cases ys) (auto split: option.splits simp: dlseg_frame)

lemma dlseg_nonnull: "dlseg h q p as r \<Longrightarrow> 0 \<notin> set as"
  by (induction as arbitrary: q p) (auto split: option.splits)

lemma dlseg_defined: "dlseg h q p as r \<Longrightarrow> a \<in> set as \<Longrightarrow> \<exists>n. h a = Some n"
  by (induction as arbitrary: q p) (auto split: option.splits)

lemma dlseg_hd: "dlseg h q p as r \<Longrightarrow> as \<noteq> [] \<Longrightarrow> p = hd as"
  by (cases as) auto

lemma dlseg_Nil_iff: "dlseg h q 0 as r \<longleftrightarrow> as = [] \<and> r = 0"
  by (cases as) auto

lemma dlseg_mid:
  assumes "dlseg h q p (xs @ a # ys) r" and "h a = Some n"
  shows "dlseg h q p xs a" and "prev n = last (q # xs)" and "dlseg h a (nxt n) ys r"
    and "a \<noteq> 0"
  using assms by (auto simp: dlseg_append split: option.splits)

lemma owned_append: "owned h pl (xs @ ys) \<longleftrightarrow> owned h pl xs \<and> owned h pl ys"
  by (induction xs) auto

lemma owned_defined:
  "owned h pl as \<Longrightarrow> a \<in> set as \<Longrightarrow> \<exists>n. h a = Some n \<and> is_used n \<and> pool n = pl"
  by (induction as) (auto split: option.splits)

lemma agree_Cons: "agree h h' (a # as) \<longleftrightarrow>
   (\<exists>m m'. h a = Some m \<and> h' a = Some m' \<and> node_size m' = node_size m \<and>
        is_used m' = is_used m \<and> pool m' = pool m) \<and> agree h h' as"
  by (auto simp: agree_def)

lemma agree_owned: "agree h h' as \<Longrightarrow> owned h' pl as = owned h pl as"
  by (induction as) (auto simp: agree_Cons)

lemma agree_live_sum: "agree h h' as \<Longrightarrow> live_sum h' as = live_sum h as"
  by (induction as) (auto simp: agree_Cons footprint_def)

lemma agree_laid_out: "agree h h' as \<Longrightarrow> laid_out h' lo hi as = laid_out h lo hi as"
  by (induction as arbitrary: lo) (auto simp: agree_Cons footprint_def)

lemma agree_gaps: "agree h h' as \<Longrightarrow> gaps h' lo hi as = gaps h lo hi as"
  by (induction as arbitrary: lo) (auto simp: agree_Cons footprint_def)

lemma laid_out_mono: "laid_out h lo hi as \<Longrightarrow> lo' \<le> lo \<Longrightarrow> laid_out h lo' hi as"
  by (cases as) (auto split: option.splits)

lemma laid_out_bounds: "laid_out h lo hi as \<Longrightarrow> lo \<le> hi"
proof (induction as arbitrary: lo)
  case Nil
  then show ?case by simp
next
  case (Cons a as)
  then obtain n where "h a = Some n" "lo \<le> unat a" "laid_out h (unat a + footprint n) hi as"
    by (auto split: option.splits)
  with Cons.IH [of "unat a + footprint n"] show ?case by simp
qed

lemma laid_out_remove: "laid_out h lo hi (xs @ a # ys) \<Longrightarrow> laid_out h lo hi (xs @ ys)"
proof (induction xs arbitrary: lo)
  case Nil
  then show ?case
    by (auto split: option.splits intro: laid_out_mono dest: laid_out_bounds simp: footprint_def)
next
  case (Cons x xs)
  then show ?case by (auto split: option.splits)
qed

lemma live_sum_append: "live_sum h (xs @ ys) = live_sum h xs + live_sum h ys"
  by (induction xs) auto

section \<open>Deallocation\<close>

lemma pool_free_step:
  assumes "ptr \<noteq> 0" and "nodes s (ptr - 40) = Some n" and "is_used n" and "pool n = pool_addr s"
    and "prev n \<noteq> 0 \<Longrightarrow> prev n \<noteq> ptr - 40 \<and> (\<exists>p. nodes s (prev n) = Some p)"
    and "nxt n \<noteq> 0 \<Longrightarrow> nxt n \<noteq> ptr - 40 \<and> (\<exists>x. nodes s (nxt n) = Some x)"
  shows "pool_free s ptr = Ok (freed s (ptr - 40) n)"
proof -
  obtain p where p: "prev n \<noteq> 0 \<Longrightarrow> prev n \<noteq> ptr - 40 \<and> nodes s (prev n) = Some p"
    using assms(5) by (cases "prev n = 0") auto
  obtain x where x: "nxt n \<noteq> 0 \<Longrightarrow> nxt n \<noteq> ptr - 40 \<and> nodes s (nxt n) = Some x"
    using assms(6) by (cases "nxt n = 0") auto
  show ?thesis
    using assms(1-4) p x
    by (cases "prev n = 0"; cases "nxt n = 0")
       (auto simp: pool_free_def sizeof_memory_node_def freed_store_def freed_def Let_def)
qed

lemma freed_store_dlseg:
  assumes seg: "dlseg h 0 p (xs @ a # ys) 0" and dist: "distinct (xs @ a # ys)" and ha: "h a = Some n"
  shows "dlseg (freed_store h a n) 0 (if xs = [] then nxt n else p) (xs @ ys) 0"
proof -
  note mid = dlseg_mid [OF seg ha]
  have nz: "0 \<notin> set (xs @ a # ys)" using seg by (rule dlseg_nonnull)
  define h1 where "h1 = h(a \<mapsto> n\<lparr>is_used := False\<rparr>)"
  define h2 where "h2 = (if prev n \<noteq> 0 then h1(prev n \<mapsto> (the (h1 (prev n)))\<lparr>nxt := nxt n\<rparr>) else h1)"
  define h3 where "h3 = (if nxt n \<noteq> 0 then h2(nxt n \<mapsto> (the (h2 (nxt n)))\<lparr>prev := prev n\<rparr>) else h2)"
  have fs: "freed_store h a n = h3"
    by (simp add: freed_store_def h1_def h2_def h3_def Let_def)
  have xs1: "dlseg h1 0 p xs a" and ys1: "dlseg h1 a (nxt n) ys 0"
    using mid dist by (simp_all add: h1_def dlseg_frame)
  have pv: "prev n = (if xs = [] then 0 else last xs)"
    using mid(2) by simp
  have xs2: "dlseg h2 0 (if xs = [] then nxt n else p) xs (nxt n)"
  proof (cases "xs = []")
    case True
    then show ?thesis by simp
  next
    case False
    then have l: "last xs \<in> set xs" by simp
    then have "last xs \<noteq> 0" using nz by auto
    moreover obtain b where b: "h1 (last xs) = Some b"
      using dlseg_defined [OF xs1 l] by blast
    ultimately have "h2 = h1(last xs \<mapsto> b\<lparr>nxt := nxt n\<rparr>)"
      using False pv by (simp add: h2_def)
    moreover have "dlseg (h1(last xs \<mapsto> b\<lparr>nxt := nxt n\<rparr>)) 0 p xs (nxt n)"
      using xs1 False dist b by (intro dlseg_relink_last) auto
    ultimately show ?thesis using False by simp
  qed
  have ys2: "dlseg h2 a (nxt n) ys 0"
  proof (cases "xs = []")
    case True
    then show ?thesis using ys1 pv by (simp add: h2_def)
  next
    case False
    then have "last xs \<in> set xs" by simp
    then have "last xs \<notin> set ys" using dist by auto
    then show ?thesis using ys1 pv False by (simp add: h2_def dlseg_frame)
  qed
  have xs3: "dlseg h3 0 (if xs = [] then nxt n else p) xs (nxt n)"
  proof (cases "nxt n = 0")
    case True
    then show ?thesis using xs2 by (simp add: h3_def)
  next
    case False
    then have "ys \<noteq> []" using mid(3) by (cases ys) auto
    then have "nxt n = hd ys" using mid(3) by (rule dlseg_hd [rotated])
    then have "nxt n \<notin> set xs" using dist \<open>ys \<noteq> []\<close> by (cases ys) auto
    then show ?thesis using xs2 False by (simp add: h3_def dlseg_frame)
  qed
  have ys3: "dlseg h3 (prev n) (nxt n) ys 0"
  proof (cases "nxt n = 0")
    case True
    then have "ys = []" using mid(3) by (simp add: dlseg_Nil_iff)
    then show ?thesis using True by simp
  next
    case False
    then have ne: "ys \<noteq> []" using mid(3) by (cases ys) auto
    then have hd: "nxt n = hd ys" using mid(3) by (rule dlseg_hd [rotated])
    obtain x where x: "h2 (hd ys) = Some x"
      using dlseg_defined [OF ys2, of "hd ys"] ne by auto
    have "h3 = h2(hd ys \<mapsto> x\<lparr>prev := prev n\<rparr>)"
      using False hd x by (simp add: h3_def)
    moreover have "dlseg (h2(hd ys \<mapsto> x\<lparr>prev := prev n\<rparr>)) (prev n) (nxt n) ys 0"
      using ys2 ne dist x by (intro dlseg_relink_head) auto
    ultimately show ?thesis by simp
  qed
  have "last (0 # xs) = prev n" using mid(2) by simp
  then show ?thesis
    unfolding fs dlseg_append using xs3 ys3 by auto
qed

lemma freed_store_other:
  assumes "b \<noteq> a" and "h b = Some m"
  shows "\<exists>m'. freed_store h a n b = Some m' \<and> node_size m' = node_size m \<and>
           is_used m' = is_used m \<and> pool m' = pool m"
  using assms by (auto simp: freed_store_def Let_def)

lemma freed_store_self:
  assumes "prev n \<noteq> a" and "nxt n \<noteq> a"
  shows "freed_store h a n a = Some (n\<lparr>is_used := False\<rparr>)"
  using assms by (auto simp: freed_store_def Let_def)

lemma pool_free_linked:
  assumes l: "linked s (xs @ a # ys)" and ptr: "ptr \<noteq> 0" "ptr - 40 = a"
  shows "\<exists>n. nodes s a = Some n \<and> is_used n \<and> pool_free s ptr = Ok (freed s a n) \<and>
             linked (freed s a n) (xs @ ys) \<and> agree (nodes s) (nodes (freed s a n)) (xs @ ys) \<and>
             nodes (freed s a n) a = Some (n\<lparr>is_used := False\<rparr>)"
proof -
  from l have seg: "dlseg (nodes s) 0 (first (block s)) (xs @ a # ys) 0"
    and dist: "distinct (xs @ a # ys)" and own: "owned (nodes s) (pool_addr s) (xs @ a # ys)"
    and pz: "pool_addr s \<noteq> 0"
    by (simp_all add: linked_def chain_def)
  obtain n where n: "nodes s a = Some n" "is_used n" "pool n = pool_addr s"
    using owned_defined [OF own, of a] by auto
  note mid = dlseg_mid [OF seg n(1)]
  have nz: "0 \<notin> set (xs @ a # ys)" using seg by (rule dlseg_nonnull)
  have pv: "prev n = (if xs = [] then 0 else last xs)" using mid(2) by simp
  have pv0: "prev n = 0 \<longleftrightarrow> xs = []"
  proof (cases "xs = []")
    case True then show ?thesis using pv by simp
  next
    case False
    then have "last xs \<in> set xs" by simp
    then have "last xs \<noteq> 0" using nz by auto
    then show ?thesis using pv False by simp
  qed
  have p_ok: "prev n \<noteq> 0 \<Longrightarrow> prev n \<noteq> ptr - 40 \<and> (\<exists>p. nodes s (prev n) = Some p)"
  proof -
    assume "prev n \<noteq> 0"
    then have ne: "xs \<noteq> []" using pv0 by simp
    then have m: "last xs \<in> set xs" by simp
    then have "last xs \<noteq> a" using dist by auto
    moreover have "\<exists>p. nodes s (last xs) = Some p"
      using dlseg_defined [OF mid(1) m] .
    ultimately show ?thesis using pv ne ptr by simp
  qed
  have x_ok: "nxt n \<noteq> 0 \<Longrightarrow> nxt n \<noteq> ptr - 40 \<and> (\<exists>x. nodes s (nxt n) = Some x)"
  proof -
    assume nn: "nxt n \<noteq> 0"
    then have ne: "ys \<noteq> []" using mid(3) by (cases ys) auto
    then have hd: "nxt n = hd ys" using mid(3) by (rule dlseg_hd [rotated])
    have m: "hd ys \<in> set ys" using ne by simp
    then have "hd ys \<noteq> a" using dist by auto
    moreover have "\<exists>x. nodes s (hd ys) = Some x"
      using dlseg_defined [OF mid(3) m] .
    ultimately show ?thesis using hd ptr by simp
  qed
  have step: "pool_free s ptr = Ok (freed s a n)"
    using pool_free_step [OF ptr(1) _ n(2,3) p_ok x_ok] n(1) ptr(2) by simp
  have ag: "agree (nodes s) (nodes (freed s a n)) (xs @ ys)"
    unfolding agree_def
  proof
    fix b assume b: "b \<in> set (xs @ ys)"
    then have "b \<noteq> a" using dist by auto
    moreover obtain m where "nodes s b = Some m"
      using dlseg_defined [OF seg, of b] b by auto
    ultimately show "\<exists>m m'. nodes s b = Some m \<and> nodes (freed s a n) b = Some m' \<and>
        node_size m' = node_size m \<and> is_used m' = is_used m \<and> pool m' = pool m"
      using freed_store_other [of b a "nodes s" m n] by (auto simp: freed_def)
  qed
  have self: "nodes (freed s a n) a = Some (n\<lparr>is_used := False\<rparr>)"
  proof -
    have "prev n \<noteq> a" using p_ok ptr(2) mid(4) by (cases "prev n = 0") auto
    moreover have "nxt n \<noteq> a" using x_ok ptr(2) mid(4) by (cases "nxt n = 0") auto
    ultimately show ?thesis by (simp add: freed_def freed_store_self)
  qed
  have "dlseg (nodes (freed s a n)) 0 (first (block (freed s a n))) (xs @ ys) 0"
    using freed_store_dlseg [OF seg dist n(1)] pv0 by (cases "xs = []") (simp_all add: freed_def)
  moreover have "owned (nodes (freed s a n)) (pool_addr (freed s a n)) (xs @ ys)"
    using agree_owned [OF ag] own by (simp add: owned_append freed_def)
  ultimately have "linked (freed s a n) (xs @ ys)"
    using dist pz by (simp add: linked_def chain_def freed_def)
  with n step ag self show ?thesis by blast
qed

lemma laid_out_footprint:
  "laid_out h lo hi as \<Longrightarrow> a \<in> set as \<Longrightarrow> h a = Some n \<Longrightarrow> lo \<le> unat a \<and> unat a + footprint n \<le> hi"
proof (induction as arbitrary: lo)
  case Nil
  then show ?case by simp
next
  case (Cons b bs)
  from Cons.prems(1) obtain m where m: "h b = Some m" "lo \<le> unat b"
    "laid_out h (unat b + footprint m) hi bs"
    by (auto split: option.splits)
  show ?case
  proof (cases "a = b")
    case True
    with m Cons.prems(3) laid_out_bounds [OF m(3)] show ?thesis by simp
  next
    case False
    with Cons.prems(2) have "a \<in> set bs" by simp
    from Cons.IH [OF m(3) this Cons.prems(3)] m(2) show ?thesis
      by (simp add: footprint_def)
  qed
qed

lemma live_sum_mem: "a \<in> set as \<Longrightarrow> h a = Some n \<Longrightarrow> footprint n \<le> live_sum h as"
  by (induction as) auto

lemma pool_free_wf:
  assumes wf: "pool_wf s (xs @ a # ys)" and ptr: "ptr - 40 = a" "ptr \<noteq> 0"
  shows "\<exists>n. nodes s a = Some n \<and> pool_free s ptr = Ok (freed s a n) \<and>
             pool_wf (freed s a n) (xs @ ys) \<and> agree (nodes s) (nodes (freed s a n)) (xs @ ys)"
proof -
  from wf have l: "linked s (xs @ a # ys)" and c: "counted s (xs @ a # ys)"
    and pl: "placed s (xs @ a # ys)"
    by (simp_all add: pool_wf_def)
  from pool_free_linked [OF l ptr(2,1)] obtain n where
    n: "nodes s a = Some n" "pool_free s ptr = Ok (freed s a n)" "linked (freed s a n) (xs @ ys)"
      "agree (nodes s) (nodes (freed s a n)) (xs @ ys)"
    by blast
  have fp: "footprint n \<le> live_sum (nodes s) (xs @ a # ys)"
    using n(1) by (intro live_sum_mem) auto
  have used: "unat (used_memory (block s)) = live_sum (nodes s) (xs @ a # ys)"
    and num: "unat (num_allocations (block s)) = length (xs @ a # ys)"
    using c by (simp_all add: counted_def)
  have lt: "unat (used_memory (block s)) < 2 ^ 64"
    using unsigned_less [of "used_memory (block s)"] by simp
  have sz: "unat (node_size n + 40) = footprint n"
    using fp used lt by (simp add: footprint_def unat_add64)
  have "unat (used_memory (block s) - (node_size n + 40)) = live_sum (nodes s) (xs @ ys)"
    using fp used sz n(1) by (simp add: unat_sub64 live_sum_append)
  moreover have "unat (num_allocations (block s) - 1) = length (xs @ ys)"
    using num by (simp add: unat_sub64)
  ultimately have c': "counted (freed s a n) (xs @ ys)"
    using agree_live_sum [OF n(4)] by (simp add: counted_def freed_def)
  have "laid_out (nodes s) (data_start s) (data_end s) (xs @ ys)"
    using pl by (auto simp: placed_def intro: laid_out_remove)
  then have pl': "placed (freed s a n) (xs @ ys)"
    using pl agree_laid_out [OF n(4)]
    by (simp add: placed_def freed_def data_start_def data_end_def)
  from n c' pl' show ?thesis by (auto simp: pool_wf_def)
qed


lemma pool150_created: "create_memory_pool 4096 150 = Some pool150"
  by (simp add: create_memory_pool_def pool150_def MIN_BLOCK_SIZE_def sizeof_memory_node_def
      MIN_ALIGNMENT_def)

lemma align_size_12: "align_size 12 = 16"
  by (simp add: align_size_def MIN_ALIGNMENT_def)

lemma pool150_a_allocated: "pool_alloc pool150 4096 12 = Some (Ok (pool150_a, 4176))"
  by (simp add: pool_alloc_def align_size_12 pool150_def pool150_a_def sizeof_memory_node_def
      sizeof_memory_block_def account_def)

section \<open>Allocation\<close>

lemma walk_dlseg:
  "dlseg (nodes s) q p as 0 \<Longrightarrow>
   walk s pl al p =
     (case walk_list s al as of
        None \<Rightarrow> Some (Ok (s, 0))
      | Some a \<Rightarrow> Some (insert_after s pl al a (the (nodes s a))
                         (a + sizeof_memory_node + node_size (the (nodes s a)))))"
proof (induction as arbitrary: q p)
  case Nil
  then show ?case by (subst walk.simps) simp
next
  case (Cons a as)
  then obtain c where c: "p = a" "a \<noteq> 0" "nodes s a = Some c" "dlseg (nodes s) a (nxt c) as 0"
    by (auto split: option.splits)
  show ?case
    using c Cons.IH [OF c(4)]
    by (subst walk.simps) (simp add: gap_after_def Let_def)
qed

lemma walk_list_mem: "walk_list s al as = Some a \<Longrightarrow> a \<in> set as"
  by (induction as) (auto split: option.splits if_splits)

lemma insert_after_ptr:
  "insert_after s pl al a c e = Ok (s', p) \<Longrightarrow> p = e + sizeof_memory_node"
  by (auto simp: insert_after_def Let_def split: option.splits if_splits)

lemma gaps_sum:
  "laid_out h lo hi as \<Longrightarrow> sum_list (map snd (gaps h lo hi as)) + live_sum h as = hi - lo"
proof (induction as arbitrary: lo)
  case Nil
  then show ?case by simp
next
  case (Cons a as)
  then obtain n where n: "h a = Some n" "lo \<le> unat a" "laid_out h (unat a + footprint n) hi as"
    by (auto split: option.splits)
  from laid_out_bounds [OF n(3)] Cons.IH [OF n(3)] n show ?case by simp
qed

lemma gap_le_free:
  assumes "laid_out h lo hi as" and "g \<in> set (gaps h lo hi as)"
  shows "snd g + live_sum h as \<le> hi - lo"
proof -
  have "snd g \<le> sum_list (map snd (gaps h lo hi as))"
    using assms(2) by (intro member_le_sum_list) auto
  with gaps_sum [OF assms(1)] show ?thesis by simp
qed


lemma unat_record_end:
  assumes "unat a + footprint c < 2 ^ 64"
  shows "unat (a + sizeof_memory_node + node_size c) = unat a + footprint c"
proof -
  have "unat (a + 40) = unat a + 40"
    using assms by (simp add: footprint_def unat_add64)
  then show ?thesis
    using assms by (simp add: footprint_def unat_add64 sizeof_memory_node_def)
qed

lemma unat_need:
  assumes "unat al + 40 < 2 ^ 64"
  shows "unat (al + sizeof_memory_node) = unat al + 40"
  using assms by (simp add: unat_add64 sizeof_memory_node_def)

lemma gap_test:
  assumes e: "e = unat a + footprint c" "e \<le> hi" "hi < 2 ^ 64"
    and nx: "nxt c \<noteq> 0 \<Longrightarrow> e \<le> unat (nxt c)"
    and up: "unat (upper_limit (block s)) = hi"
    and need: "unat al + 40 < 2 ^ 64"
  shows "al + sizeof_memory_node \<le> gap_after s a c \<longleftrightarrow>
         unat al + 40 \<le> (if nxt c \<noteq> 0 then unat (nxt c) - e else hi - e)"
proof -
  have end_eq: "unat (a + sizeof_memory_node + node_size c) = e"
    using e by (simp add: unat_record_end)
  have "unat (gap_after s a c) = (if nxt c \<noteq> 0 then unat (nxt c) - e else hi - e)"
  proof (cases "nxt c = 0")
    case True
    then show ?thesis
      using end_eq up e by (simp add: gap_after_def Let_def unat_sub64)
  next
    case False
    then show ?thesis
      using end_eq nx by (simp add: gap_after_def Let_def unat_sub64)
  qed
  then show ?thesis
    using unat_need [OF need] by (simp add: word_le_nat_alt)
qed

lemma walk_list_first_fit:
  assumes hi: "hi < 2 ^ 64" and up: "unat (upper_limit (block s)) = hi"
    and need: "unat al + 40 < 2 ^ 64"
  shows "dlseg (nodes s) q p as 0 \<Longrightarrow> laid_out (nodes s) lo hi as \<Longrightarrow>
    (case find (\<lambda>g. unat al + 40 \<le> snd g) (tl (gaps (nodes s) lo hi as)) of
       None \<Rightarrow> walk_list s al as = None
     | Some g \<Rightarrow> \<exists>a c. walk_list s al as = Some a \<and> a \<in> set as \<and> nodes s a = Some c \<and>
          fst g = unat a + footprint c \<and> unat al + 40 \<le> snd g \<and>
          (nxt c \<noteq> 0 \<longrightarrow> unat (nxt c) = fst g + snd g \<and> (\<exists>x. nodes s (nxt c) = Some x)))"
proof (induction as arbitrary: q p lo)
  case Nil
  then show ?case by simp
next
  case (Cons a as)
  from Cons.prems obtain c where c: "p = a" "a \<noteq> 0" "nodes s a = Some c"
    "dlseg (nodes s) a (nxt c) as 0" "lo \<le> unat a"
    "laid_out (nodes s) (unat a + footprint c) hi as"
    by (auto split: option.splits)
  define e where "e = unat a + footprint c"
  have ehi: "e \<le> hi" using laid_out_bounds [OF c(6)] by (simp add: e_def)
  note IH = Cons.IH [OF c(4) c(6)]
  show ?case
  proof (cases as)
    case Nil
    then have nx: "nxt c = 0" using c(4) by simp
    have "al + sizeof_memory_node \<le> gap_after s a c \<longleftrightarrow> unat al + 40 \<le> hi - e"
      using gap_test [OF e_def ehi hi _ up need] nx by simp
    then show ?thesis
      using Nil c nx by (simp add: e_def)
  next
    case (Cons b bs)
    then have nx: "nxt c = b" "b \<noteq> 0" "\<exists>x. nodes s b = Some x"
      using c(4) by (auto split: option.splits)
    have eb: "e \<le> unat b"
      using c(6) Cons by (auto simp: e_def split: option.splits)
    have t: "al + sizeof_memory_node \<le> gap_after s a c \<longleftrightarrow> unat al + 40 \<le> unat b - e"
      using gap_test [OF e_def ehi hi _ up need] nx eb by simp
    show ?thesis
    proof (cases "unat al + 40 \<le> unat b - e")
      case True
      then show ?thesis
        using Cons c nx t eb by (simp add: e_def)
    next
      case False
      then show ?thesis
        using Cons c nx t IH by (auto simp: e_def split: option.splits)
    qed
  qed
qed


lemma of_nat_unat64: "unat (w::64 word) = n \<Longrightarrow> of_nat n = w"
  by auto

lemma insert_after_ok:
  assumes "nodes s a = Some c" and "e \<noteq> a"
    and "nxt c \<noteq> 0 \<Longrightarrow> nxt c \<noteq> e \<and> (\<exists>x. nodes s (nxt c) = Some x)"
  shows "\<exists>s'. insert_after s pl al a c e = Ok (s', e + sizeof_memory_node) \<and>
           nodes s' e = Some (init_node al a (nxt c) pl) \<and>
           block s' = account (block s) al \<and> pool_addr s' = pool_addr s"
proof (cases "nxt c = 0")
  case True
  then show ?thesis
    using assms(1,2) by (simp add: insert_after_def Let_def)
next
  case False
  with assms(3) obtain x where "nxt c \<noteq> e" "nodes s (nxt c) = Some x" by auto
  then show ?thesis
    using assms(1,2) False by (auto simp: insert_after_def Let_def)
qed

lemma pool_alloc_first_fit:
  assumes wf: "pool_wf s as" and al: "align_size n \<noteq> 0"
    and g: "find (\<lambda>g. unat (align_size n) + 40 \<le> snd g)
              (gaps (nodes s) (data_start s) (data_end s) as) = Some g"
  shows "\<exists>s' nd. pool_alloc s (pool_addr s) n = Some (Ok (s', of_nat (fst g) + sizeof_memory_node)) \<and>
           nodes s' (of_nat (fst g)) = Some nd \<and> node_size nd = align_size n \<and> is_used nd \<and>
           pool nd = pool_addr s \<and>
           used_memory (block s') = used_memory (block s) + (align_size n + sizeof_memory_node) \<and>
           num_allocations (block s') = num_allocations (block s) + 1 \<and>
           pool_addr s' = pool_addr s"
proof -
  define h where "h = nodes s"
  define lo where "lo = data_start s"
  define hi where "hi = data_end s"
  define need where "need = unat (align_size n) + 40"
  from wf have l: "linked s as" and c: "counted s as" and pl: "placed s as"
    by (simp_all add: pool_wf_def)
  from l have pz: "pool_addr s \<noteq> 0" and seg: "dlseg h 0 (first (block s)) as 0"
    by (simp_all add: linked_def chain_def h_def)
  from pl have hi40: "hi + 40 < 2 ^ 64" and tot: "40 \<le> unat (total_size (block s))"
    and up: "upper_limit (block s) = pool_addr s + total_size (block s)"
    and lay: "laid_out h lo hi as"
    by (simp_all add: placed_def h_def lo_def hi_def)
  have hi: "hi < 2 ^ 64" using hi40 by simp
  have uhi: "unat (upper_limit (block s)) = hi"
    using hi by (simp add: up hi_def data_end_def unat_add64)
  have ulo: "unat (pool_addr s + sizeof_memory_block) = lo"
    using hi tot by (simp add: lo_def hi_def data_start_def data_end_def unat_add64
        sizeof_memory_block_def)
  have lo_w: "of_nat lo = pool_addr s + sizeof_memory_block"
    using ulo by (rule of_nat_unat64)
  have hilo: "hi - lo = unat (total_size (block s)) - 40" "lo \<le> hi"
    using tot by (simp_all add: lo_def hi_def data_start_def data_end_def)
  from g have gin: "g \<in> set (gaps h lo hi as)" and fit: "need \<le> snd g"
    by (auto simp: find_Some_iff h_def lo_def hi_def need_def in_set_conv_nth)
  have used: "unat (used_memory (block s)) = live_sum h as"
    using c by (simp add: counted_def h_def)
  have room: "need + unat (used_memory (block s)) \<le> unat (total_size (block s)) - 40"
    using gap_le_free [OF lay gin] fit used hilo by simp
  have tlt: "unat (total_size (block s)) < 2 ^ 64"
    using unsigned_less [of "total_size (block s)"] by simp
  have need64: "unat (align_size n) + 40 < 2 ^ 64"
    using room tlt tot by (simp add: need_def)
  have uneed: "unat (align_size n + sizeof_memory_node) = need"
    using unat_need [OF need64] by (simp add: need_def)
  have budget: "\<not> align_size n + sizeof_memory_node
                   > total_size (block s) - used_memory (block s)"
    using room tot uneed by (simp add: word_less_nat_alt unat_sub64)
  show ?thesis
  proof (cases as)
    case Nil
    then have f0: "first (block s) = 0" using seg by simp
    from Nil g have gfst: "fst g = lo"
      by (auto simp: lo_def split: if_splits)
    show ?thesis
      using pz al budget f0
      by (simp add: pool_alloc_def Let_def gfst lo_w init_node_def account_def)
  next
    case (Cons a as')
    from seg Cons obtain f where f: "first (block s) = a" "a \<noteq> 0" "h a = Some f"
      by (auto split: option.splits)
    from lay Cons f have loa: "lo \<le> unat a" by simp
    have ig: "unat (first (block s) - (pool_addr s + sizeof_memory_block)) = unat a - lo"
      using loa ulo f by (simp add: unat_sub64)
    show ?thesis
    proof (cases "need \<le> unat a - lo")
      case True
      then have gfst: "fst g = lo"
        using g Cons by (auto simp: need_def h_def lo_def hi_def)
      have ne: "pool_addr s + sizeof_memory_block \<noteq> a"
        using True ulo need_def by auto
      have test: "first (block s) - (pool_addr s + sizeof_memory_block)
                    \<ge> align_size n + sizeof_memory_node"
        using True ig uneed by (simp add: word_le_nat_alt)
      show ?thesis
        using pz al budget f ne test
        by (simp add: pool_alloc_def Let_def gfst lo_w init_node_def account_def h_def)
    next
      case False
      then have g': "find (\<lambda>g. unat (align_size n) + 40 \<le> snd g) (tl (gaps h lo hi as)) = Some g"
        using g Cons f by (simp add: need_def h_def lo_def hi_def)
      have test: "\<not> first (block s) - (pool_addr s + sizeof_memory_block)
                    \<ge> align_size n + sizeof_memory_node"
        using False ig uneed by (simp add: word_le_nat_alt)
      from walk_list_first_fit [OF hi uhi need64, of 0 "first (block s)" as lo] seg lay g'
      obtain b c where b: "walk_list s (align_size n) as = Some b" "b \<in> set as"
        "nodes s b = Some c" "fst g = unat b + footprint c"
        "nxt c \<noteq> 0 \<longrightarrow> unat (nxt c) = fst g + snd g \<and> (\<exists>x. nodes s (nxt c) = Some x)"
        by (auto simp: h_def)
      define e where "e = b + sizeof_memory_node + node_size c"
      have bend: "unat b + footprint c \<le> hi"
        using laid_out_footprint [OF lay b(2)] b(3) by (simp add: h_def)
      then have ue: "unat e = fst g"
        using hi b(4) by (simp add: e_def unat_record_end)
      then have e_w: "of_nat (fst g) = e"
        by (rule of_nat_unat64)
      have "e \<noteq> b" using ue b(4) by (auto simp: footprint_def)
      moreover have "nxt c \<noteq> 0 \<Longrightarrow> nxt c \<noteq> e \<and> (\<exists>x. nodes s (nxt c) = Some x)"
        using b(5) ue fit by (auto simp: need_def)
      ultimately obtain s' where s': 
        "insert_after s (pool_addr s) (align_size n) b c e = Ok (s', e + sizeof_memory_node)"
        "nodes s' e = Some (init_node (align_size n) b (nxt c) (pool_addr s))"
        "block s' = account (block s) (align_size n)" "pool_addr s' = pool_addr s"
        using insert_after_ok [OF b(3), of e "pool_addr s" "align_size n"] by blast
      have "walk s (pool_addr s) (align_size n) (first (block s))
              = Some (Ok (s', e + sizeof_memory_node))"
        using walk_dlseg [of s 0 "first (block s)" as "pool_addr s" "align_size n"] seg b(1,3) s'(1)
        by (simp add: h_def e_def)
      then have "pool_alloc s (pool_addr s) n = Some (Ok (s', e + sizeof_memory_node))"
        using pz al budget f test by (simp add: pool_alloc_def Let_def)
      then show ?thesis
        using s' by (simp add: e_w init_node_def account_def)
    qed
  qed
qed


lemma gaps_within:
  "laid_out h lo hi as \<Longrightarrow> g \<in> set (gaps h lo hi as) \<Longrightarrow> lo \<le> fst g \<and> fst g + snd g \<le> hi"
proof (induction as arbitrary: lo)
  case Nil
  then show ?case by auto
next
  case (Cons a as)
  from Cons.prems(1) obtain n where n: "h a = Some n" "lo \<le> unat a"
    "laid_out h (unat a + footprint n) hi as"
    by (auto split: option.splits)
  show ?case
  proof (cases "g = (lo, unat a - lo)")
    case True
    then show ?thesis using n laid_out_bounds [OF n(3)] by simp
  next
    case False
    then have "g \<in> set (gaps h (unat a + footprint n) hi as)"
      using Cons.prems(2) n by simp
    from Cons.IH [OF n(3) this] n(2) show ?thesis by simp
  qed
qed

lemma gaps_sorted: "laid_out h lo hi as \<Longrightarrow> sorted (map fst (gaps h lo hi as))"
proof (induction as arbitrary: lo)
  case Nil
  then show ?case by simp
next
  case (Cons a as)
  from Cons.prems(1) obtain n where n: "h a = Some n" "lo \<le> unat a"
    "laid_out h (unat a + footprint n) hi as"
    by (auto split: option.splits)
  have "\<forall>g \<in> set (gaps h (unat a + footprint n) hi as). lo \<le> fst g"
    using gaps_within [OF n(3)] n(2) by fastforce
  then show ?case
    using Cons.IH [OF n(3)] n by simp
qed

lemma find_lowest:
  assumes "sorted (map fst gs)" and "find P gs = Some g" and "g' \<in> set gs" and "P g'"
  shows "fst g \<le> fst g'"
proof -
  from assms(2) obtain i where i: "i < length gs" "g = gs ! i" "\<forall>j<i. \<not> P (gs ! j)"
    by (auto simp: find_Some_iff)
  from assms(3) obtain k where k: "k < length gs" "g' = gs ! k"
    by (auto simp: in_set_conv_nth)
  have "i \<le> k" using i(3) k(2) assms(4) by (meson not_le)
  then have "map fst gs ! i \<le> map fst gs ! k"
    using assms(1) k(1) by (intro sorted_nth_mono) auto
  then show ?thesis using i k by simp
qed

lemma find_exists: "x \<in> set xs \<Longrightarrow> P x \<Longrightarrow> \<exists>y. find P xs = Some y"
  by (cases "find P xs") (auto simp: find_None_iff)

lemma wf_geometry:
  assumes "pool_wf s as"
  shows "pool_addr s \<noteq> 0" and "data_end s + 40 < 2 ^ 64"
    and "unat (upper_limit (block s)) = data_end s"
    and "unat (pool_addr s + sizeof_memory_block) = data_start s"
    and "data_start s \<le> data_end s"
    and "dlseg (nodes s) 0 (first (block s)) as 0"
    and "laid_out (nodes s) (data_start s) (data_end s) as"
    and "unat (used_memory (block s)) = live_sum (nodes s) as"
    and "data_end s - data_start s = unat (total_size (block s)) - 40"
    and "40 \<le> unat (total_size (block s))"
proof -
  from assms have l: "linked s as" and c: "counted s as" and pl: "placed s as"
    by (simp_all add: pool_wf_def)
  from pl have hi: "data_end s + 40 < 2 ^ 64" and tot: "40 \<le> unat (total_size (block s))"
    and up: "upper_limit (block s) = pool_addr s + total_size (block s)"
    by (simp_all add: placed_def)
  show "pool_addr s \<noteq> 0" using l by (simp add: linked_def)
  show "data_end s + 40 < 2 ^ 64" by (rule hi)
  show "unat (upper_limit (block s)) = data_end s"
    using hi by (simp add: up data_end_def unat_add64)
  show "unat (pool_addr s + sizeof_memory_block) = data_start s"
    using hi tot by (simp add: data_start_def data_end_def unat_add64 sizeof_memory_block_def)
  show "data_start s \<le> data_end s"
    using tot by (simp add: data_start_def data_end_def)
  show "dlseg (nodes s) 0 (first (block s)) as 0"
    using l by (simp add: linked_def chain_def)
  show "laid_out (nodes s) (data_start s) (data_end s) as"
    using pl by (simp add: placed_def)
  show "unat (used_memory (block s)) = live_sum (nodes s) as"
    using c by (simp add: counted_def)
  show "data_end s - data_start s = unat (total_size (block s)) - 40"
    by (simp add: data_start_def data_end_def)
  show "40 \<le> unat (total_size (block s))" by (rule tot)
qed

lemma pool_alloc_over_budget:
  assumes wf: "pool_wf s as" and need: "unat (align_size sz) + 40 < 2 ^ 64"
    and over: "unat (total_size (block s)) - unat (used_memory (block s)) < unat (align_size sz) + 40"
  shows "pool_alloc s (pool_addr s) sz = Some (Ok (s, 0))"
proof -
  note g = wf_geometry [OF wf]
  have "live_sum (nodes s) as \<le> data_end s - data_start s"
    using gaps_sum [OF g(7)] by simp
  then have "unat (used_memory (block s)) \<le> unat (total_size (block s))"
    using g(8,9) by simp
  then have "unat (total_size (block s) - used_memory (block s))
               = unat (total_size (block s)) - unat (used_memory (block s))"
    by (simp add: unat_sub64)
  then have "align_size sz + sizeof_memory_node > total_size (block s) - used_memory (block s)"
    using over unat_need [OF need] by (simp add: word_less_nat_alt)
  then show ?thesis
    using g(1) by (simp add: pool_alloc_def Let_def)
qed

lemma pool_alloc_no_fit:
  assumes wf: "pool_wf s as" and ne: "as \<noteq> []" and need: "unat (align_size sz) + 40 < 2 ^ 64"
    and nofit: "\<forall>g \<in> set (gaps (nodes s) (data_start s) (data_end s) as).
                  snd g < unat (align_size sz) + 40"
  shows "pool_alloc s (pool_addr s) sz = Some (Ok (s, 0))"
proof -
  note g = wf_geometry [OF wf]
  from ne obtain a as' where as: "as = a # as'" by (cases as) auto
  from g(6) as obtain f where f: "first (block s) = a" "a \<noteq> 0" "nodes s a = Some f"
    by (auto split: option.splits)
  from g(7) as f have loa: "data_start s \<le> unat a" by simp
  have "unat (first (block s) - (pool_addr s + sizeof_memory_block)) = unat a - data_start s"
    using loa g(4) f by (simp add: unat_sub64)
  moreover have "unat a - data_start s < unat (align_size sz) + 40"
    using nofit as by simp
  ultimately have test: "\<not> first (block s) - (pool_addr s + sizeof_memory_block)
                    \<ge> align_size sz + sizeof_memory_node"
    using unat_need [OF need] by (simp add: word_le_nat_alt)
  have "find (\<lambda>g. unat (align_size sz) + 40 \<le> snd g)
          (tl (gaps (nodes s) (data_start s) (data_end s) as)) = None"
    using nofit as f by (auto simp: find_None_iff)
  then have "walk_list s (align_size sz) as = None"
    using walk_list_first_fit [OF _ g(3) need g(6) g(7)] g(2) by simp
  then have "walk s (pool_addr s) (align_size sz) (first (block s)) = Some (Ok (s, 0))"
    using walk_dlseg [OF g(6), of "pool_addr s" "align_size sz"] by simp
  then show ?thesis
    using g(1) f test by (simp add: pool_alloc_def Let_def)
qed

lemma gaps_length: "laid_out h lo hi as \<Longrightarrow> length (gaps h lo hi as) = Suc (length as)"
  by (induction as arbitrary: lo) (auto split: option.splits)

lemma gaps_remove:
  assumes "laid_out h lo hi (xs @ a # ys)" and "h a = Some n"
  shows "gaps h lo hi (xs @ ys) =
           take (length xs) (gaps h lo hi (xs @ a # ys)) @
           (fst (gaps h lo hi (xs @ a # ys) ! length xs),
            snd (gaps h lo hi (xs @ a # ys) ! length xs) + footprint n +
            snd (gaps h lo hi (xs @ a # ys) ! Suc (length xs))) #
           drop (Suc (Suc (length xs))) (gaps h lo hi (xs @ a # ys))"
  using assms
proof (induction xs arbitrary: lo)
  case Nil
  then have a: "lo \<le> unat a" "laid_out h (unat a + footprint n) hi ys"
    by auto
  show ?case
  proof (cases ys)
    case Nil
    then show ?thesis using a Nil.prems(2) by auto
  next
    case (Cons y ys')
    then obtain m where "h y = Some m" "unat a + footprint n \<le> unat y"
      using a(2) by (auto split: option.splits)
    then show ?thesis using a Cons Nil.prems(2) by auto
  qed
next
  case (Cons x xs)
  then obtain m where m: "h x = Some m" "laid_out h (unat x + footprint m) hi (xs @ a # ys)"
    by (auto split: option.splits)
  from Cons.IH [OF m(2) Cons.prems(2)] m(1) show ?case by simp
qed

lemma find_append_skip:
  "\<forall>x \<in> set xs. \<not> P x \<Longrightarrow> find P (xs @ ys) = find P ys"
  by (induction xs) auto

lemma pool_alloc_lowest_fit:
  assumes "pool_wf s as" and "align_size n \<noteq> 0"
    and "g \<in> set (gaps (nodes s) (data_start s) (data_end s) as)"
    and "unat (align_size n) + 40 \<le> snd g"
  shows "\<exists>s' p f nd.
           find (\<lambda>g. unat (align_size n) + 40 \<le> snd g)
             (gaps (nodes s) (data_start s) (data_end s) as) = Some f \<and>
           pool_alloc s (pool_addr s) n = Some (Ok (s', p)) \<and> p \<noteq> 0 \<and> unat p = fst f + 40 \<and>
           nodes s' (p - sizeof_memory_node) = Some nd \<and> node_size nd = align_size n \<and>
           is_used nd \<and>
           used_memory (block s') = used_memory (block s) + (align_size n + sizeof_memory_node) \<and>
           num_allocations (block s') = num_allocations (block s) + 1"
proof -
  let ?G = "gaps (nodes s) (data_start s) (data_end s) as"
  let ?P = "\<lambda>g. unat (align_size n) + 40 \<le> snd g"
  from assms(3,4) obtain f where f: "find ?P ?G = Some f"
    using find_exists [of g ?G ?P] by auto
  from assms(1) have lay: "laid_out (nodes s) (data_start s) (data_end s) as"
    and hi: "data_end s + 40 < 2 ^ 64"
    by (simp_all add: pool_wf_def placed_def)
  from f have fin: "f \<in> set ?G" and fP: "?P f"
    by (auto simp: find_Some_iff in_set_conv_nth)
  have "fst f + snd f \<le> data_end s"
    using gaps_within [OF lay fin] by simp
  then have lt: "fst f + 40 < 2 ^ 64" using hi fP by simp
  then have u1: "unat (of_nat (fst f) :: 64 word) = fst f"
    by (simp add: unat_of_nat)
  then have u: "unat (of_nat (fst f) + sizeof_memory_node :: 64 word) = fst f + 40"
    using lt by (simp add: unat_add64 sizeof_memory_node_def)
  then have nz: "(of_nat (fst f) + sizeof_memory_node :: 64 word) \<noteq> 0"
    by (metis add_is_0 unat_0 zero_neq_numeral)
  from pool_alloc_first_fit [OF assms(1,2) f] obtain s' nd where
    r: "pool_alloc s (pool_addr s) n = Some (Ok (s', of_nat (fst f) + sizeof_memory_node))"
       "nodes s' (of_nat (fst f)) = Some nd" "node_size nd = align_size n" "is_used nd"
       "used_memory (block s') = used_memory (block s) + (align_size n + sizeof_memory_node)"
       "num_allocations (block s') = num_allocations (block s) + 1"
    by blast
  with f u nz show ?thesis
    by (intro exI [of _ s'] exI [of _ "of_nat (fst f) + sizeof_memory_node"]
        exI [of _ f] exI [of _ nd]) simp
qed

lemma free_then_alloc:
  assumes wf: "pool_wf s as" and i: "i < length as" and n: "nodes s (as ! i) = Some n"
    and G: "G = gaps (nodes s) (data_start s) (data_end s) as"
    and pos: "0 < snd (G ! i)" "0 < snd (G ! Suc i)"
    and span: "unat (align_size sz) + 40 = snd (G ! i) + footprint n + snd (G ! Suc i)"
  shows "\<exists>s1 s2 p. pool_free s (as ! i + sizeof_memory_node) = Ok s1 \<and>
           pool_alloc s1 (pool_addr s) sz = Some (Ok (s2, p)) \<and> p \<noteq> 0 \<and>
           ((\<forall>j<i. snd (G ! j) < unat (align_size sz) + 40) \<longrightarrow> unat p = fst (G ! i) + 40)"
proof -
  define a where "a = as ! i"
  define xs where "xs = take i as"
  define ys where "ys = drop (Suc i) as"
  have as: "as = xs @ a # ys" and lx: "length xs = i"
    using i by (simp_all add: a_def xs_def ys_def id_take_nth_drop)
  note g = wf_geometry [OF wf]
  have mem: "a \<in> set as" using as by simp
  have na: "nodes s a = Some n" using n by (simp add: a_def)
  have "unat a + footprint n \<le> data_end s"
    using laid_out_footprint [OF g(7) mem na] by simp
  then have "unat a + 40 < 2 ^ 64" using g(2) by (simp add: footprint_def)
  then have "unat (a + sizeof_memory_node) = unat a + 40"
    by (simp add: unat_add64 sizeof_memory_node_def)
  then have ptr: "a + sizeof_memory_node \<noteq> 0"
    by (metis add_is_0 unat_0 zero_neq_numeral)
  have bk: "a + sizeof_memory_node - 40 = a"
    by (simp add: sizeof_memory_node_def)
  from pool_free_wf [OF wf [unfolded as] bk ptr] na
  have fr: "pool_free s (a + sizeof_memory_node) = Ok (freed s a n)"
    and wf1: "pool_wf (freed s a n) (xs @ ys)"
    and ag: "agree (nodes s) (nodes (freed s a n)) (xs @ ys)"
    by auto
  let ?s1 = "freed s a n"
  have same: "pool_addr ?s1 = pool_addr s" "data_start ?s1 = data_start s"
    "data_end ?s1 = data_end s"
    by (simp_all add: freed_def data_start_def data_end_def)
  let ?G1 = "gaps (nodes ?s1) (data_start ?s1) (data_end ?s1) (xs @ ys)"
  let ?m = "(fst (G ! i), snd (G ! i) + footprint n + snd (G ! Suc i))"
  have G1: "?G1 = take i G @ ?m # drop (Suc (Suc i)) G"
    using agree_gaps [OF ag] gaps_remove [OF g(7) [unfolded as] na] same
    by (simp add: G as lx)
  have al: "align_size sz \<noteq> 0"
    using span pos by (auto simp: footprint_def)
  have "?m \<in> set ?G1" by (simp add: G1)
  moreover have "unat (align_size sz) + 40 \<le> snd ?m" using span by simp
  ultimately obtain s2 p f where
    r: "find (\<lambda>g. unat (align_size sz) + 40 \<le> snd g) ?G1 = Some f"
       "pool_alloc ?s1 (pool_addr ?s1) sz = Some (Ok (s2, p))" "p \<noteq> 0" "unat p = fst f + 40"
    using pool_alloc_lowest_fit [OF wf1 al] by blast
  have "unat p = fst (G ! i) + 40" if low: "\<forall>j<i. snd (G ! j) < unat (align_size sz) + 40"
  proof -
    have "\<forall>x \<in> set (take i G). \<not> unat (align_size sz) + 40 \<le> snd x"
    proof
      fix x assume "x \<in> set (take i G)"
      then obtain j where "j < i" "x = G ! j"
        by (auto simp: in_set_conv_nth)
      with low show "\<not> unat (align_size sz) + 40 \<le> snd x"
        by (simp add: not_le)
    qed
    then have "find (\<lambda>g. unat (align_size sz) + 40 \<le> snd g) ?G1 = Some ?m"
      using span by (simp add: G1 find_append_skip)
    with r(1) have "f = ?m" by simp
    then have "fst f = fst (G ! i)" by simp
    with r(4) show ?thesis by simp
  qed
  with fr r same show ?thesis
    by (auto simp: a_def)
qed

section \<open>Alignment\<close>


lemma aligned8_0: "aligned8 0"
  by (simp add: aligned8_def)


















section \<open>Heaps reached by ordinary use\<close>

text \<open>
  The three placing branches of \<^verbatim>\<open>pool_alloc\<close> on a well-formed heap, for a request
  whose aligned size plus header does not wrap around: the list, the counters and the
  layout of the heap they leave.
\<close>

lemma insert_after_eq:
  assumes "nodes s a = Some c" and "e \<noteq> a"
    and "nxt c \<noteq> 0 \<Longrightarrow> nxt c \<noteq> e \<and> (\<exists>x. nodes s (nxt c) = Some x)"
  shows "insert_after s pl al a c e =
           Ok (s\<lparr>nodes := inserted_store (nodes s) a c e (init_node al a (nxt c) pl),
                 block := account (block s) al\<rparr>, e + sizeof_memory_node)"
proof (cases "nxt c = 0")
  case True
  then show ?thesis
    using assms(1,2) by (simp add: insert_after_def inserted_store_def Let_def)
next
  case False
  with assms(3) obtain x where "nxt c \<noteq> e" "nodes s (nxt c) = Some x" by auto
  then show ?thesis
    using assms(1,2) False by (auto simp: insert_after_def inserted_store_def Let_def)
qed

lemma inserted_store_other:
  assumes "b \<noteq> e" and "h b = Some m"
  shows "\<exists>m'. inserted_store h a c e nd b = Some m' \<and> node_size m' = node_size m \<and>
           is_used m' = is_used m \<and> pool m' = pool m"
  using assms by (auto simp: inserted_store_def Let_def)

lemma inserted_store_new:
  assumes "e \<noteq> a" and "nxt c \<noteq> e"
  shows "inserted_store h a c e nd e = Some nd"
  using assms by (auto simp: inserted_store_def Let_def)

lemma inserted_store_dlseg:
  assumes seg: "dlseg h 0 p (xs @ a # ys) 0" and dist: "distinct (xs @ a # ys)"
    and ha: "h a = Some c" and e: "e \<notin> set (xs @ a # ys)" "e \<noteq> 0"
    and nd: "prev nd = a" "nxt nd = nxt c"
  shows "dlseg (inserted_store h a c e nd) 0 p (xs @ a # e # ys) 0"
proof -
  note mid = dlseg_mid [OF seg ha]
  define h1 where "h1 = h(e \<mapsto> nd)"
  define h2 where "h2 = (if nxt c \<noteq> 0 then h1(nxt c \<mapsto> (the (h1 (nxt c)))\<lparr>prev := e\<rparr>) else h1)"
  define h3 where "h3 = h2(a \<mapsto> (the (h2 a))\<lparr>nxt := e\<rparr>)"
  have ins: "inserted_store h a c e nd = h3"
    by (simp add: inserted_store_def h1_def h2_def h3_def Let_def)
  have nx: "nxt c = (if ys = [] then 0 else hd ys)"
    using mid(3) by (cases ys) auto
  have nxa: "nxt c \<noteq> a" "nxt c \<notin> set xs" "nxt c \<noteq> e"
  proof -
    show "nxt c \<noteq> a" using nx dist mid(4) by (cases ys) auto
    show "nxt c \<notin> set xs" using nx dist dlseg_nonnull [OF mid(1)] by (cases ys) auto
    show "nxt c \<noteq> e" using nx e by (cases ys) auto
  qed
  have xs1: "dlseg h1 0 p xs a" and ys1: "dlseg h1 a (nxt c) ys 0"
    using mid e by (simp_all add: h1_def dlseg_frame)
  have xs2: "dlseg h2 0 p xs a"
    using xs1 nxa by (simp add: h2_def dlseg_frame)
  have ys2: "dlseg h2 e (nxt c) ys 0"
  proof (cases "ys = []")
    case True
    then show ?thesis using nx by simp
  next
    case False
    then have hd: "nxt c = hd ys" using nx by simp
    have "hd ys \<in> set ys" using False by simp
    then have hd0: "nxt c \<noteq> 0" using hd dlseg_nonnull [OF mid(3)] by auto
    obtain x where x: "h1 (hd ys) = Some x"
      using dlseg_defined [OF ys1, of "hd ys"] False by auto
    have "h2 = h1(hd ys \<mapsto> x\<lparr>prev := e\<rparr>)"
      using hd hd0 x by (simp add: h2_def)
    moreover have "dlseg (h1(hd ys \<mapsto> x\<lparr>prev := e\<rparr>)) e (nxt c) ys 0"
      using ys1 False dist x by (intro dlseg_relink_head) auto
    ultimately show ?thesis by simp
  qed
  have h2a: "h2 a = Some c"
    using ha e nxa by (auto simp: h2_def h1_def)
  have h3a: "h3 a = Some (c\<lparr>nxt := e\<rparr>)"
    using h2a by (simp add: h3_def)
  have h3e: "h3 e = Some nd"
    using e nxa by (auto simp: h3_def h2_def h1_def)
  have xs3: "dlseg h3 0 p xs a"
    using xs2 dist by (simp add: h3_def dlseg_frame)
  have ys3: "dlseg h3 e (nxt c) ys 0"
    using ys2 dist by (simp add: h3_def dlseg_frame)
  have "dlseg h3 (last (0 # xs)) a (a # e # ys) 0"
    using h3a h3e ys3 mid(2,4) e(2) nd by simp
  then show ?thesis
    unfolding ins using xs3 dlseg_append [of h3 0 p xs "a # e # ys" 0] by blast
qed

lemma laid_out_lower: "laid_out h lo hi as \<Longrightarrow> b \<in> set as \<Longrightarrow> lo \<le> unat b"
proof (induction as arbitrary: lo)
  case Nil
  then show ?case by simp
next
  case (Cons a as)
  from Cons.prems(1) obtain m where m: "h a = Some m" "lo \<le> unat a"
    "laid_out h (unat a + footprint m) hi as"
    by (auto split: option.splits)
  show ?case
  proof (cases "b = a")
    case True
    then show ?thesis using m by simp
  next
    case False
    with Cons.prems(2) have "b \<in> set as" by simp
    from Cons.IH [OF m(3) this] m(2) show ?thesis by simp
  qed
qed

lemma laid_out_before:
  "laid_out h lo hi (xs @ a # ys) \<Longrightarrow> b \<in> set xs \<Longrightarrow> unat b < unat a"
proof (induction xs arbitrary: lo)
  case Nil
  then show ?case by simp
next
  case (Cons x xs)
  from Cons.prems(1) obtain m where m: "h x = Some m"
    "laid_out h (unat x + footprint m) hi (xs @ a # ys)"
    by (auto split: option.splits)
  show ?case
  proof (cases "b = x")
    case True
    have "unat x + footprint m \<le> unat a"
      using laid_out_lower [OF m(2), of a] by simp
    then show ?thesis using True by (simp add: footprint_def)
  next
    case False
    with Cons.prems(2) have "b \<in> set xs" by simp
    from Cons.IH [OF m(2) this] show ?thesis .
  qed
qed

lemma laid_out_after:
  "laid_out h lo hi (xs @ a # ys) \<Longrightarrow> h a = Some c \<Longrightarrow> b \<in> set ys \<Longrightarrow>
   unat a + footprint c \<le> unat b"
proof (induction xs arbitrary: lo)
  case Nil
  then have "laid_out h (unat a + footprint c) hi ys" by simp
  from laid_out_lower [OF this Nil.prems(3)] show ?case .
next
  case (Cons x xs)
  from Cons.prems(1) obtain m where m: "h x = Some m"
    "laid_out h (unat x + footprint m) hi (xs @ a # ys)"
    by (auto split: option.splits)
  from Cons.IH [OF m(2) Cons.prems(2,3)] show ?case .
qed

lemma laid_out_insert:
  assumes "laid_out h lo hi (xs @ a # ys)" and "h a = Some c" and "h e = Some nd"
    and "unat e = unat a + footprint c"
    and "case ys of [] \<Rightarrow> unat e + footprint nd \<le> hi | y # ys' \<Rightarrow> unat e + footprint nd \<le> unat y"
  shows "laid_out h lo hi (xs @ a # e # ys)"
  using assms(1)
proof (induction xs arbitrary: lo)
  case Nil
  then show ?case
    using assms(2-5) by (cases ys) (auto split: option.splits)
next
  case (Cons x xs)
  then show ?case by (auto split: option.splits)
qed

lemma live_sum_length: "laid_out h lo hi as \<Longrightarrow> 40 * length as \<le> live_sum h as"
proof (induction as arbitrary: lo)
  case Nil
  then show ?case by simp
next
  case (Cons a as)
  from Cons.prems obtain m where m: "h a = Some m" "laid_out h (unat a + footprint m) hi as"
    by (auto split: option.splits)
  from Cons.IH [OF m(2)] m(1) show ?case by (simp add: footprint_def)
qed


lemma counted_account:
  assumes "unat (used_memory b) = U" and "unat (num_allocations b) = N"
    and "unat al + 40 + U \<le> unat (total_size b)" and "40 * N \<le> U"
  shows "unat (used_memory (account b al)) = U + (unat al + 40)"
    and "unat (num_allocations (account b al)) = N + 1"
proof -
  have t: "unat (total_size b) < 2 ^ 64"
    using unsigned_less [of "total_size b"] by simp
  have n: "unat (al + sizeof_memory_node) = unat al + 40"
    using assms(3) t by (intro unat_need) simp
  show "unat (used_memory (account b al)) = U + (unat al + 40)"
    using assms(1,3) t n by (simp add: account_def unat_add64)
  have "N + 1 < 2 ^ 64" using assms(3,4) t by simp
  then show "unat (num_allocations (account b al)) = N + 1"
    using assms(2) by (simp add: account_def unat_add64)
qed

lemma alloc_empty_sound:
  assumes wf: "pool_wf s []" and rm: "data_end s + 80 < 2 ^ 64"
    and need: "unat al + 40 \<le> unat (total_size (block s))"
  shows "sound (s\<lparr>nodes := (nodes s)(pool_addr s + sizeof_memory_block \<mapsto>
                              init_node al 0 0 (pool_addr s)),
                  block := (account (block s) al)\<lparr>first := pool_addr s + sizeof_memory_block\<rparr>\<rparr>)
               [pool_addr s + sizeof_memory_block]"
proof -
  note g = wf_geometry [OF wf]
  define ps where "ps = pool_addr s + sizeof_memory_block"
  define s' where "s' = s\<lparr>nodes := (nodes s)(ps \<mapsto> init_node al 0 0 (pool_addr s)),
                  block := (account (block s) al)\<lparr>first := ps\<rparr>\<rparr>"
  have ups: "unat ps = data_start s" using g(4) by (simp add: ps_def)
  then have psz: "ps \<noteq> 0" by (auto simp: data_start_def)
  have l: "linked s' [ps]"
    using g(1) psz by (simp add: linked_def chain_def s'_def init_node_def)
  have u0: "unat (used_memory (block s)) = 0" "unat (num_allocations (block s)) = 0"
    using wf by (simp_all add: pool_wf_def counted_def)
  have c: "counted s' [ps]"
    using counted_account [OF u0 _ , of al] need
    by (simp add: counted_def s'_def footprint_def init_node_def account_def)
  have up: "upper_limit (block s) = pool_addr s + total_size (block s)"
    using wf by (simp add: pool_wf_def placed_def)
  have same: "data_start s' = data_start s" "data_end s' = data_end s"
    by (simp_all add: s'_def data_start_def data_end_def account_def)
  have "sound s' [ps]"
  proof (cases "unat al + 40 \<le> unat (total_size (block s)) - 40")
    case True
    then have "laid_out (nodes s') (data_start s') (data_end s') [ps]"
      using ups g(10) by (simp add: same, simp add: s'_def footprint_def init_node_def
          data_start_def data_end_def)
    then have "placed s' [ps]"
      using g(2,10) up same by (simp add: placed_def, simp add: s'_def account_def)
    with l c show ?thesis by (simp add: sound_def pool_wf_def)
  next
    case False
    then have "overhang s' [ps]"
      using l c rm g(10) up need same
      by (simp add: overhang_def, simp add: s'_def account_def ps_def footprint_def init_node_def)
    then show ?thesis by (simp add: sound_def)
  qed
  then show ?thesis by (simp add: s'_def ps_def)
qed

lemma alloc_front_wf:
  assumes wf: "pool_wf s (a # as)"
    and need: "unat al + 40 + unat (used_memory (block s)) \<le> unat (total_size (block s))"
    and gap: "unat al + 40 \<le> unat a - data_start s"
  shows "\<exists>f. nodes s a = Some f \<and>
           pool_addr s + sizeof_memory_block \<notin> set (a # as) \<and>
           pool_wf (s\<lparr>nodes := (nodes s)(pool_addr s + sizeof_memory_block \<mapsto>
                                  init_node al 0 a (pool_addr s),
                                a \<mapsto> f\<lparr>prev := pool_addr s + sizeof_memory_block\<rparr>),
                      block := (account (block s) al)
                                 \<lparr>first := pool_addr s + sizeof_memory_block\<rparr>\<rparr>)
                   ((pool_addr s + sizeof_memory_block) # a # as)"
proof -
  note g = wf_geometry [OF wf]
  define ps where "ps = pool_addr s + sizeof_memory_block"
  define h where "h = nodes s"
  from g(6) obtain f where f: "first (block s) = a" "a \<noteq> 0" "h a = Some f" "prev f = 0"
    "dlseg h a (nxt f) as 0"
    by (auto simp: h_def split: option.splits)
  define h' where "h' = h(ps \<mapsto> init_node al 0 a (pool_addr s), a \<mapsto> f\<lparr>prev := ps\<rparr>)"
  define s' where "s' = s\<lparr>nodes := h', block := (account (block s) al)\<lparr>first := ps\<rparr>\<rparr>"
  have ups: "unat ps = data_start s" using g(4) by (simp add: ps_def)
  then have psz: "ps \<noteq> 0" by (auto simp: data_start_def)
  have low: "data_start s < unat b" if "b \<in> set (a # as)" for b
  proof -
    have "laid_out h (unat a) (data_end s) (a # as)"
      using g(7) f(3) by (simp add: h_def)
    from laid_out_lower [OF this that] gap show ?thesis by simp
  qed
  have fresh: "ps \<notin> set (a # as)"
    using low ups by (metis less_irrefl)
  from wf have dist: "distinct (a # as)" and own: "owned h (pool_addr s) (a # as)"
    by (simp_all add: pool_wf_def linked_def h_def)
  have ag: "agree h h' (a # as)"
    unfolding agree_def
  proof
    fix b assume b: "b \<in> set (a # as)"
    then have "b \<noteq> ps" using fresh by auto
    moreover obtain m where "h b = Some m"
      using dlseg_defined [OF g(6), of b] b by (auto simp: h_def)
    ultimately show "\<exists>m m'. h b = Some m \<and> h' b = Some m' \<and> node_size m' = node_size m \<and>
        is_used m' = is_used m \<and> pool m' = pool m"
      using f(3) by (auto simp: h'_def)
  qed
  have seg0: "dlseg h 0 a (a # as) 0"
    using g(6) f(1) by (simp add: h_def)
  have "dlseg (h(ps \<mapsto> init_node al 0 a (pool_addr s))) 0 a (a # as) 0 = dlseg h 0 a (a # as) 0"
    using fresh by (rule dlseg_frame)
  with seg0 have seg1: "dlseg (h(ps \<mapsto> init_node al 0 a (pool_addr s))) 0 a (a # as) 0"
    by blast
  have "(h(ps \<mapsto> init_node al 0 a (pool_addr s))) (hd (a # as)) = Some f"
    using f(3) fresh by auto
  from dlseg_relink_head [OF seg1 list.distinct(2) dist this, of ps]
  have "dlseg h' ps a (a # as) 0"
    unfolding h'_def list.sel(1) .
  moreover have "h' ps = Some (init_node al 0 a (pool_addr s))"
    using fresh by (auto simp: h'_def)
  ultimately have seg: "dlseg h' 0 ps (ps # a # as) 0"
    using psz by (simp add: init_node_def)
  have own': "owned h' (pool_addr s) (ps # a # as)"
    using agree_owned [OF ag, of "pool_addr s"] own fresh
    by (auto simp: h'_def init_node_def)
  have l: "linked s' (ps # a # as)"
    using g(1) seg dist fresh own' by (simp add: linked_def chain_def s'_def)
  have len: "40 * length (a # as) \<le> live_sum h (a # as)"
    using live_sum_length [OF g(7)] by (simp add: h_def)
  have num: "unat (num_allocations (block s)) = length (a # as)"
    using wf by (simp add: pool_wf_def counted_def)
  have ls: "live_sum h' (ps # a # as) = live_sum h (a # as) + (unat al + 40)"
    using agree_live_sum [OF ag] fresh by (auto simp: h'_def footprint_def init_node_def)
  have U: "unat (used_memory (block s)) = live_sum h (a # as)"
    using g(8) by (simp only: h_def)
  have need': "unat al + 40 + live_sum h (a # as) \<le> unat (total_size (block s))"
    using need U by simp
  note ca = counted_account [OF U num need' len]
  have c: "counted s' (ps # a # as)"
    unfolding counted_def using ca ls by (simp add: s'_def del: live_sum.simps)
  have same: "data_start s' = data_start s" "data_end s' = data_end s"
    by (simp_all add: s'_def data_start_def data_end_def account_def)
  have "laid_out h' (data_start s + (unat al + 40)) (data_end s) (a # as)"
    using agree_laid_out [OF ag] g(7) gap f(3) by (auto simp: h_def split: option.splits)
  then have lay: "laid_out h' (data_start s) (data_end s) (ps # a # as)"
    using ups \<open>h' ps = Some (init_node al 0 a (pool_addr s))\<close>
    by (simp add: footprint_def init_node_def)
  have up: "upper_limit (block s) = pool_addr s + total_size (block s)"
    using wf by (simp add: pool_wf_def placed_def)
  have ns: "nodes s' = h'" "pool_addr s' = pool_addr s"
    "total_size (block s') = total_size (block s)"
    "upper_limit (block s') = upper_limit (block s)"
    by (simp_all add: s'_def account_def)
  have "placed s' (ps # a # as)"
    unfolding placed_def same ns using g(2,10) up lay by blast
  with l c have "pool_wf s' (ps # a # as)" by (simp add: pool_wf_def)
  with f(3) fresh show ?thesis
    by (simp add: s'_def h'_def ps_def h_def)
qed


lemma alloc_walk_wf:
  assumes wf: "pool_wf s (xs @ a # ys)" and c: "nodes s a = Some c"
    and need: "unat al + 40 + unat (used_memory (block s)) \<le> unat (total_size (block s))"
    and e: "unat e = unat a + footprint c"
    and fit: "case ys of [] \<Rightarrow> unat e + (unat al + 40) \<le> data_end s
              | y # ys' \<Rightarrow> unat e + (unat al + 40) \<le> unat y"
  shows "e \<notin> set (xs @ a # ys) \<and>
         pool_wf (s\<lparr>nodes := inserted_store (nodes s) a c e
                                (init_node al a (nxt c) (pool_addr s)),
                    block := account (block s) al\<rparr>) (xs @ a # e # ys)"
proof -
  note g = wf_geometry [OF wf]
  define h where "h = nodes s"
  define nd where "nd = init_node al a (nxt c) (pool_addr s)"
  define h' where "h' = inserted_store h a c e nd"
  define s' where "s' = s\<lparr>nodes := h', block := account (block s) al\<rparr>"
  have ha: "h a = Some c" using c by (simp add: h_def)
  have lay: "laid_out h (data_start s) (data_end s) (xs @ a # ys)"
    using g(7) by (simp only: h_def)
  have seg: "dlseg h 0 (first (block s)) (xs @ a # ys) 0"
    using g(6) by (simp only: h_def)
  from wf have dist: "distinct (xs @ a # ys)"
    and own: "owned h (pool_addr s) (xs @ a # ys)"
    by (simp_all add: pool_wf_def linked_def h_def)
  note mid = dlseg_mid [OF seg ha]
  have ea: "unat a < unat e" using e by (simp add: footprint_def)
  have ez: "e \<noteq> 0" using ea by auto
  have after: "unat e < unat b" if "b \<in> set ys" for b
  proof (cases ys)
    case Nil
    with that show ?thesis by simp
  next
    case (Cons y ys')
    then have ey: "unat e + (unat al + 40) \<le> unat y" using fit by simp
    show ?thesis
    proof (cases "b = y")
      case True
      with ey show ?thesis by simp
    next
      case False
      then have b: "b \<in> set ys'" using that Cons by simp
      obtain m where m: "h y = Some m"
        using dlseg_defined [OF seg, of y] Cons by auto
      have "laid_out h (data_start s) (data_end s) ((xs @ [a]) @ y # ys')"
        using lay Cons by simp
      from laid_out_after [OF this m b] ey show ?thesis by simp
    qed
  qed
  have fresh: "e \<notin> set (xs @ a # ys)"
  proof
    assume "e \<in> set (xs @ a # ys)"
    then consider "e \<in> set xs" | "e = a" | "e \<in> set ys" by auto
    then show False
    proof cases
      case 1
      from laid_out_before [OF lay 1] ea show False by simp
    next
      case 2
      with ea show False by simp
    next
      case 3
      from after [OF 3] show False by simp
    qed
  qed
  have nx: "nxt c = (if ys = [] then 0 else hd ys)"
    using mid(3) by (cases ys) auto
  have nxe: "nxt c \<noteq> e"
    using nx ez fresh by (cases ys) auto
  have h'e: "h' e = Some nd"
    using fresh nxe by (simp add: h'_def inserted_store_new)
  have ag: "agree h h' (xs @ a # ys)"
    unfolding agree_def
  proof
    fix b assume b: "b \<in> set (xs @ a # ys)"
    then have "b \<noteq> e" using fresh by auto
    moreover obtain m where "h b = Some m"
      using dlseg_defined [OF seg b] by blast
    ultimately show "\<exists>m m'. h b = Some m \<and> h' b = Some m' \<and> node_size m' = node_size m \<and>
        is_used m' = is_used m \<and> pool m' = pool m"
      using inserted_store_other [of b e h m a c nd] by (auto simp: h'_def)
  qed
  have seg': "dlseg h' 0 (first (block s)) (xs @ a # e # ys) 0"
    unfolding h'_def using seg dist ha fresh ez
    by (rule inserted_store_dlseg) (simp_all add: nd_def init_node_def)
  have "owned h' (pool_addr s) (xs @ a # ys)"
    using agree_owned [OF ag] own by simp
  then have own': "owned h' (pool_addr s) (xs @ a # e # ys)"
    using h'e by (simp add: owned_append nd_def init_node_def)
  have dist': "distinct (xs @ a # e # ys)"
    using dist fresh by auto
  have l: "linked s' (xs @ a # e # ys)"
    using g(1) seg' dist' own' by (simp add: linked_def chain_def s'_def account_def)
  have fnd: "footprint nd = unat al + 40"
    by (simp add: nd_def footprint_def init_node_def)
  have ls: "live_sum h' (xs @ a # e # ys) = live_sum h (xs @ a # ys) + (unat al + 40)"
    using agree_live_sum [OF ag] h'e fnd by (simp add: live_sum_append)
  have U: "unat (used_memory (block s)) = live_sum h (xs @ a # ys)"
    using g(8) by (simp only: h_def)
  have num: "unat (num_allocations (block s)) = length (xs @ a # ys)"
    using wf by (simp add: pool_wf_def counted_def)
  have need': "unat al + 40 + live_sum h (xs @ a # ys) \<le> unat (total_size (block s))"
    using need U by simp
  have len: "40 * length (xs @ a # ys) \<le> live_sum h (xs @ a # ys)"
    using lay by (rule live_sum_length)
  note ca = counted_account [OF U num need' len]
  have c': "counted s' (xs @ a # e # ys)"
    unfolding counted_def using ca ls by (simp add: s'_def del: live_sum.simps)
  obtain c2 where c2: "h' a = Some c2" "node_size c2 = node_size c"
    using ag ha by (auto simp: agree_def)
  have lay0: "laid_out h' (data_start s) (data_end s) (xs @ a # ys)"
    using agree_laid_out [OF ag] lay by simp
  have e2: "unat e = unat a + footprint c2"
    using e c2(2) by (simp add: footprint_def)
  have fit2: "case ys of [] \<Rightarrow> unat e + footprint nd \<le> data_end s
              | y # ys' \<Rightarrow> unat e + footprint nd \<le> unat y"
    unfolding fnd by (rule fit)
  have lay': "laid_out h' (data_start s) (data_end s) (xs @ a # e # ys)"
    using lay0 c2(1) h'e e2 fit2 by (rule laid_out_insert)
  have up: "upper_limit (block s) = pool_addr s + total_size (block s)"
    using wf by (simp add: pool_wf_def placed_def)
  have same: "data_start s' = data_start s" "data_end s' = data_end s"
    by (simp_all add: s'_def data_start_def data_end_def account_def)
  have ns: "nodes s' = h'" "pool_addr s' = pool_addr s"
    "total_size (block s') = total_size (block s)"
    "upper_limit (block s') = upper_limit (block s)"
    by (simp_all add: s'_def account_def)
  have "placed s' (xs @ a # e # ys)"
    unfolding placed_def same ns using g(2,10) up lay' by blast
  with l c' have "pool_wf s' (xs @ a # e # ys)" by (simp add: pool_wf_def)
  with fresh show ?thesis
    by (simp add: s'_def h'_def nd_def h_def)
qed

lemma walk_list_stop:
  assumes hi: "hi < 2 ^ 64" and up: "unat (upper_limit (block s)) = hi"
    and need: "unat al + 40 < 2 ^ 64"
  shows "dlseg (nodes s) q p as 0 \<Longrightarrow> laid_out (nodes s) lo hi as \<Longrightarrow>
    walk_list s al as = Some a \<Longrightarrow>
    \<exists>xs ys c. as = xs @ a # ys \<and> nodes s a = Some c \<and>
      (case ys of [] \<Rightarrow> unat a + footprint c + (unat al + 40) \<le> hi
       | y # ys' \<Rightarrow> unat a + footprint c + (unat al + 40) \<le> unat y)"
proof (induction as arbitrary: q p lo)
  case Nil
  then show ?case by simp
next
  case (Cons b bs)
  from Cons.prems(1,2) obtain c where c: "p = b" "b \<noteq> 0" "nodes s b = Some c"
    "dlseg (nodes s) b (nxt c) bs 0" "lo \<le> unat b"
    "laid_out (nodes s) (unat b + footprint c) hi bs"
    by (auto split: option.splits)
  define e where "e = unat b + footprint c"
  have ehi: "e \<le> hi" using laid_out_bounds [OF c(6)] by (simp add: e_def)
  show ?case
  proof (cases bs)
    case Nil
    then have nx: "nxt c = 0" using c(4) by simp
    have t: "al + sizeof_memory_node \<le> gap_after s b c \<longleftrightarrow> unat al + 40 \<le> hi - e"
      using gap_test [OF e_def ehi hi _ up need] nx by simp
    have ab: "a = b" and "unat al + 40 \<le> hi - e"
      using Cons.prems(3) Nil c(3) t by (simp_all split: if_splits)
    then have "e + (unat al + 40) \<le> hi" using ehi by simp
    then have "b # bs = [] @ a # [] \<and> nodes s a = Some c \<and> unat a + footprint c + (unat al + 40) \<le> hi"
      using Nil c(3) ab by (simp add: e_def)
    then show ?thesis by (metis list.simps(4))
  next
    case (Cons y ys')
    then have nx: "nxt c = y" "y \<noteq> 0"
      using c(4) by (auto split: option.splits)
    have ey: "e \<le> unat y"
      using c(6) Cons by (auto simp: e_def split: option.splits)
    have t: "al + sizeof_memory_node \<le> gap_after s b c \<longleftrightarrow> unat al + 40 \<le> unat y - e"
      using gap_test [OF e_def ehi hi _ up need] nx ey by simp
    show ?thesis
    proof (cases "unat al + 40 \<le> unat y - e")
      case True
      then have ab: "a = b" using Cons.prems(3) c(3) t by simp
      have "e + (unat al + 40) \<le> unat y" using True ey by simp
      then have "b # bs = [] @ a # (y # ys') \<and> nodes s a = Some c \<and>
          unat a + footprint c + (unat al + 40) \<le> unat y"
        using Cons c(3) ab by (simp add: e_def)
      then show ?thesis by (metis list.simps(5))
    next
      case False
      then have "walk_list s al bs = Some a"
        using Cons.prems(3) c(3) t by simp
      from Cons.IH [OF c(4) c(6) this] obtain xs ys c' where
        r: "bs = xs @ a # ys" "nodes s a = Some c'"
          "(case ys of [] \<Rightarrow> unat a + footprint c' + (unat al + 40) \<le> hi
            | y # ys' \<Rightarrow> unat a + footprint c' + (unat al + 40) \<le> unat y)"
        by blast
      from r(1) have "b # bs = (b # xs) @ a # ys" by simp
      with r(2,3) show ?thesis by blast
    qed
  qed
qed


lemma ptr_nonzero:
  "unat (a::64 word) + 40 < 2 ^ 64 \<Longrightarrow>
   a + sizeof_memory_node \<noteq> 0 \<and> a + sizeof_memory_node - sizeof_memory_node = a"
proof -
  assume "unat a + 40 < 2 ^ 64"
  then have "unat (a + sizeof_memory_node) = unat a + 40"
    by (simp add: unat_add64 sizeof_memory_node_def)
  then have "a + sizeof_memory_node \<noteq> 0"
    by (metis add_is_0 unat_0 zero_neq_numeral)
  then show ?thesis by simp
qed

text \<open>
  On a well-formed heap such a request always returns: either NULL with the heap as it
  was, or the data pointer of a new record, in a heap that is sound again.
\<close>

lemma pool_alloc_wf:
  assumes wf: "pool_wf s as" and rm: "data_end s + 80 < 2 ^ 64"
    and nw: "unat (align_size n) + 40 < 2 ^ 64"
  shows "\<exists>s' p. pool_alloc s (pool_addr s) n = Some (Ok (s', p)) \<and>
           pool_addr s' = pool_addr s \<and> total_size (block s') = total_size (block s) \<and>
           (p = 0 \<longrightarrow> s' = s) \<and>
           (p \<noteq> 0 \<longrightarrow> p - sizeof_memory_node \<notin> set as \<and>
              (\<exists>as'. sound s' as' \<and> set as' = insert (p - sizeof_memory_node) (set as)))"
proof -
  note g = wf_geometry [OF wf]
  let ?al = "align_size n"
  define ps where "ps = pool_addr s + sizeof_memory_block"
  have uneed: "unat (?al + sizeof_memory_node) = unat ?al + 40"
    using nw by (rule unat_need)
  have "live_sum (nodes s) as \<le> data_end s - data_start s"
    using gaps_sum [OF g(7)] by simp
  then have ule: "unat (used_memory (block s)) \<le> unat (total_size (block s))"
    using g(8,9) by simp
  then have usub: "unat (total_size (block s) - used_memory (block s))
               = unat (total_size (block s)) - unat (used_memory (block s))"
    by (simp add: unat_sub64)
  have ups: "unat ps = data_start s" using g(4) by (simp add: ps_def)
  have "unat ps + 40 < 2 ^ 64" using ups g(2,5) by simp
  note psp = ptr_nonzero [OF this]
  have hi: "data_end s < 2 ^ 64" using g(2) by simp
  show ?thesis
  proof (cases "?al = 0 \<or>
       ?al + sizeof_memory_node > total_size (block s) - used_memory (block s)")
    case True
    then have "pool_alloc s (pool_addr s) n = Some (Ok (s, 0))"
      using g(1) by (auto simp: pool_alloc_def Let_def)
    then show ?thesis by simp
  next
    case ok: False
    then have al0: "?al \<noteq> 0"
      and budget: "\<not> ?al + sizeof_memory_node > total_size (block s) - used_memory (block s)"
      by simp_all
    have need: "unat ?al + 40 + unat (used_memory (block s)) \<le> unat (total_size (block s))"
      using budget uneed usub ule by (simp add: word_less_nat_alt)
    show ?thesis
    proof (cases as)
      case Nil
      have f0: "first (block s) = 0" using g(6) Nil by simp
      define s1 where "s1 = s\<lparr>nodes := (nodes s)(ps \<mapsto> init_node ?al 0 0 (pool_addr s)),
                   block := (account (block s) ?al)\<lparr>first := ps\<rparr>\<rparr>"
      have r: "pool_alloc s (pool_addr s) n = Some (Ok (s1, ps + sizeof_memory_node))"
        using g(1) al0 budget f0 by (simp add: pool_alloc_def Let_def s1_def ps_def)
      have "unat ?al + 40 \<le> unat (total_size (block s))" using need by simp
      from alloc_empty_sound [OF wf [unfolded Nil] rm this]
      have snd: "sound s1 [ps]" by (simp add: s1_def ps_def)
      have same: "pool_addr s1 = pool_addr s" "total_size (block s1) = total_size (block s)"
        by (simp_all add: s1_def account_def)
      have "\<exists>as'. sound s1 as' \<and> set as' = insert ps (set as)"
        using snd Nil by (intro exI [of _ "[ps]"]) simp
      moreover have "ps \<notin> set as" using Nil by simp
      ultimately show ?thesis using r same psp by simp
    next
      case (Cons a as')
      from g(6) Cons obtain f where f: "first (block s) = a" "a \<noteq> 0" "nodes s a = Some f"
        by (auto split: option.splits)
      from g(7) Cons f have loa: "data_start s \<le> unat a" by simp
      have ig: "unat (first (block s) - ps) = unat a - data_start s"
        using loa ups f by (simp add: unat_sub64)
      show ?thesis
      proof (cases "unat ?al + 40 \<le> unat a - data_start s")
        case True
        from alloc_front_wf [OF wf [unfolded Cons] need True] obtain f' where
          f': "nodes s a = Some f'" "ps \<notin> set (a # as')"
            "pool_wf (s\<lparr>nodes := (nodes s)(ps \<mapsto> init_node ?al 0 a (pool_addr s),
                                          a \<mapsto> f'\<lparr>prev := ps\<rparr>),
                        block := (account (block s) ?al)\<lparr>first := ps\<rparr>\<rparr>) (ps # a # as')"
          unfolding ps_def by blast
        define s1 where "s1 = s\<lparr>nodes := (nodes s)(ps \<mapsto> init_node ?al 0 a (pool_addr s),
                                          a \<mapsto> f\<lparr>prev := ps\<rparr>),
                        block := (account (block s) ?al)\<lparr>first := ps\<rparr>\<rparr>"
        have ff: "f' = f" using f f' by simp
        have wf1: "pool_wf s1 (ps # a # as')" using f'(3) by (simp add: s1_def ff)
        have test: "first (block s) - ps \<ge> ?al + sizeof_memory_node"
          using True ig uneed by (simp add: word_le_nat_alt)
        have ne: "ps \<noteq> a" using f'(2) by simp
        have r: "pool_alloc s (pool_addr s) n = Some (Ok (s1, ps + sizeof_memory_node))"
          using g(1) al0 budget f ne test
          by (simp add: pool_alloc_def Let_def s1_def ps_def [symmetric])
        have same: "pool_addr s1 = pool_addr s" "total_size (block s1) = total_size (block s)"
          by (simp_all add: s1_def account_def)
        have "\<exists>as''. sound s1 as'' \<and> set as'' = insert ps (set as)"
          using wf1 Cons by (intro exI [of _ "ps # a # as'"]) (simp add: sound_def)
        moreover have "ps \<notin> set as" using f'(2) Cons by simp
        ultimately show ?thesis using r same psp by simp
      next
        case False
        have test: "\<not> first (block s) - ps \<ge> ?al + sizeof_memory_node"
          using False ig uneed by (simp add: word_le_nat_alt)
        have alloc_walk: "pool_alloc s (pool_addr s) n
                = walk s (pool_addr s) ?al (first (block s))"
          using g(1) al0 budget f test by (simp add: pool_alloc_def Let_def ps_def [symmetric])
        note wd = walk_dlseg [OF g(6), of "pool_addr s" ?al]
        show ?thesis
        proof (cases "walk_list s ?al as")
          case None
          then have "pool_alloc s (pool_addr s) n = Some (Ok (s, 0))"
            using alloc_walk wd by simp
          then show ?thesis by simp
        next
          case (Some b)
          from walk_list_stop [OF hi g(3) nw g(6) g(7) Some] obtain xs ys c where
            st: "as = xs @ b # ys" "nodes s b = Some c"
              "(case ys of [] \<Rightarrow> unat b + footprint c + (unat ?al + 40) \<le> data_end s
                | y # ys' \<Rightarrow> unat b + footprint c + (unat ?al + 40) \<le> unat y)"
            by blast
          define e where "e = b + sizeof_memory_node + node_size c"
          have room: "unat b + footprint c + (unat ?al + 40) < 2 ^ 64"
          proof (cases ys)
            case Nil
            with st(3) hi show ?thesis by simp
          next
            case (Cons y ys')
            have "unat y < 2 ^ 64" using unsigned_less [of y] by simp
            with st(3) Cons show ?thesis by simp
          qed
          then have ue: "unat e = unat b + footprint c"
            by (simp add: e_def unat_record_end)
          have fit: "case ys of [] \<Rightarrow> unat e + (unat ?al + 40) \<le> data_end s
                      | y # ys' \<Rightarrow> unat e + (unat ?al + 40) \<le> unat y"
            unfolding ue by (rule st(3))
          from alloc_walk_wf [OF wf [unfolded st(1)] st(2) need ue fit]
          have fresh: "e \<notin> set (xs @ b # ys)"
            and wf1: "pool_wf (s\<lparr>nodes := inserted_store (nodes s) b c e
                                   (init_node ?al b (nxt c) (pool_addr s)),
                                 block := account (block s) ?al\<rparr>) (xs @ b # e # ys)"
            by simp_all
          define s1 where "s1 = s\<lparr>nodes := inserted_store (nodes s) b c e
                                   (init_node ?al b (nxt c) (pool_addr s)),
                                 block := account (block s) ?al\<rparr>"
          have seg: "dlseg (nodes s) 0 (first (block s)) (xs @ b # ys) 0"
            using g(6) st(1) by simp
          note mid = dlseg_mid [OF seg st(2)]
          have eb: "e \<noteq> b" using fresh by auto
          have nxc: "nxt c \<noteq> e \<and> (\<exists>x. nodes s (nxt c) = Some x)" if "nxt c \<noteq> 0"
          proof -
            have ne: "ys \<noteq> []" using mid(3) that by (cases ys) auto
            then have "nxt c = hd ys" using mid(3) by (rule dlseg_hd [rotated])
            moreover have m: "hd ys \<in> set ys" using ne by simp
            moreover have "hd ys \<noteq> e" using fresh m by auto
            moreover have "\<exists>x. nodes s (hd ys) = Some x"
              using dlseg_defined [OF mid(3) m] .
            ultimately show ?thesis by simp
          qed
          have "insert_after s (pool_addr s) ?al b c e = Ok (s1, e + sizeof_memory_node)"
            unfolding s1_def using st(2) eb nxc by (rule insert_after_eq)
          then have r: "pool_alloc s (pool_addr s) n = Some (Ok (s1, e + sizeof_memory_node))"
            using alloc_walk wd Some st(2) by (simp add: e_def)
          have "unat e + 40 < 2 ^ 64" using room ue by simp
          note ep = ptr_nonzero [OF this]
          have same: "pool_addr s1 = pool_addr s" "total_size (block s1) = total_size (block s)"
            by (simp_all add: s1_def account_def)
          have "\<exists>as''. sound s1 as'' \<and> set as'' = insert e (set as)"
            using wf1 st(1) by (intro exI [of _ "xs @ b # e # ys"]) (auto simp: sound_def s1_def)
          moreover have "e \<notin> set as" using fresh st(1) by simp
          ultimately show ?thesis using r same ep by simp
        qed
      qed
    qed
  qed
qed


text \<open>
  On the heap with the over-long record every such request fails the budget test. A NULL
  result leaves a sound heap as it was, and \<^verbatim>\<open>pool_free\<close> of a record of the list leaves
  a well-formed heap.
\<close>

lemma overhang_alloc:
  assumes oh: "overhang s as" and nw: "unat (align_size n) + 40 < 2 ^ 64"
  shows "pool_alloc s (pool_addr s) n = Some (Ok (s, 0))"
proof -
  from oh obtain m where m: "nodes s (pool_addr s + sizeof_memory_block) = Some m"
    "unat (total_size (block s)) < footprint m + 40"
    "footprint m \<le> unat (total_size (block s))"
    and as: "as = [pool_addr s + sizeof_memory_block]"
    and c: "counted s as" and l: "linked s as"
    by (auto simp: overhang_def split: option.splits)
  have pz: "pool_addr s \<noteq> 0" using l by (simp add: linked_def)
  have u: "unat (used_memory (block s)) = footprint m"
    using c as m(1) by (simp add: counted_def)
  then have "unat (total_size (block s) - used_memory (block s))
               = unat (total_size (block s)) - footprint m"
    using m(3) by (simp add: unat_sub64)
  then have "align_size n + sizeof_memory_node
               > total_size (block s) - used_memory (block s)"
    using m(2) unat_need [OF nw] by (simp add: word_less_nat_alt)
  then show ?thesis
    using pz by (simp add: pool_alloc_def Let_def)
qed

lemma alloc_null_unchanged:
  assumes seg: "dlseg (nodes s) 0 (first (block s)) as 0"
    and st: "unat (pool_addr s + sizeof_memory_block) + 40 < 2 ^ 64"
    and ends: "\<And>a c. a \<in> set as \<Longrightarrow> nodes s a = Some c \<Longrightarrow> unat a + footprint c + 40 < 2 ^ 64"
    and r: "pool_alloc s pl sz = Some (Ok (s', 0))"
  shows "s' = s"
proof -
  have pl: "pl = pool_addr s" "pl \<noteq> 0"
    using r by (auto simp: pool_alloc_def split: if_splits)
  have start_nz: "pool_addr s + sizeof_memory_block + sizeof_memory_node \<noteq> 0"
    using ptr_nonzero [OF st] by simp
  have walk_nz: "s'' = s" if w: "walk s pl (align_size sz) (first (block s)) = Some (Ok (s'', 0))" for s''
  proof (cases "walk_list s (align_size sz) as")
    case None
    then show ?thesis
      using walk_dlseg [OF seg, of pl "align_size sz"] w by simp
  next
    case (Some a)
    then have mem: "a \<in> set as" by (rule walk_list_mem)
    then obtain c where c: "nodes s a = Some c"
      using dlseg_defined [OF seg] by blast
    define e where "e = a + sizeof_memory_node + node_size c"
    have "insert_after s pl (align_size sz) a c e = Ok (s'', 0)"
      using walk_dlseg [OF seg, of pl "align_size sz"] w Some c by (simp add: e_def)
    then have z: "e + sizeof_memory_node = 0"
      by (auto dest: insert_after_ptr)
    have "unat a + footprint c + 40 < 2 ^ 64"
      using ends [OF mem c] .
    then have "unat e + 40 < 2 ^ 64"
      by (simp add: e_def unat_record_end)
    from ptr_nonzero [OF this] z show ?thesis by simp
  qed
  show ?thesis
    using r pl start_nz walk_nz
    by (auto simp: pool_alloc_def Let_def split: if_splits option.splits)
qed

lemma sound_linked: "sound s as \<Longrightarrow> linked s as"
  by (auto simp: sound_def pool_wf_def overhang_def)

lemma sound_start: "sound s as \<Longrightarrow> unat (pool_addr s + sizeof_memory_block) = data_start s \<and>
    data_start s + 40 < 2 ^ 64"
proof -
  assume "sound s as"
  then have "data_end s + 40 < 2 ^ 64" "40 \<le> unat (total_size (block s))"
    by (auto simp: sound_def pool_wf_def placed_def overhang_def)
  then show ?thesis
    by (simp add: data_start_def data_end_def unat_add64 sizeof_memory_block_def)
qed

lemma sound_ends:
  assumes "sound s as" and "a \<in> set as" and "nodes s a = Some c"
  shows "unat a + footprint c + 40 < 2 ^ 64"
  using assms(1) unfolding sound_def
proof
  assume wf: "pool_wf s as"
  note g = wf_geometry [OF wf]
  from laid_out_footprint [OF g(7) assms(2,3)] g(2) show ?thesis by simp
next
  assume oh: "overhang s as"
  then have as: "as = [pool_addr s + sizeof_memory_block]"
    and fp: "footprint c \<le> unat (total_size (block s))"
    and rm: "data_end s + 80 < 2 ^ 64"
    using assms(2,3) by (auto simp: overhang_def split: option.splits)
  have "unat a = data_start s"
    using sound_start [OF assms(1)] assms(2) as by simp
  then show ?thesis
    using fp rm by (simp add: data_start_def data_end_def)
qed

lemma sound_alloc_null:
  assumes "sound s as" and "pool_alloc s pl sz = Some (Ok (s', 0))"
  shows "s' = s"
proof -
  have seg: "dlseg (nodes s) 0 (first (block s)) as 0"
    using sound_linked [OF assms(1)] by (simp add: linked_def chain_def)
  have st: "unat (pool_addr s + sizeof_memory_block) + 40 < 2 ^ 64"
    using sound_start [OF assms(1)] by simp
  show ?thesis
    using seg st sound_ends [OF assms(1)] assms(2) by (rule alloc_null_unchanged)
qed


lemma sound_free:
  assumes snd: "sound s as" and mem: "ptr - sizeof_memory_node \<in> set as"
  shows "\<exists>n. nodes s (ptr - sizeof_memory_node) = Some n \<and> is_used n \<and> ptr \<noteq> 0 \<and>
           pool_free s ptr = Ok (freed s (ptr - sizeof_memory_node) n) \<and>
           pool_wf (freed s (ptr - sizeof_memory_node) n)
             (remove1 (ptr - sizeof_memory_node) as) \<and>
           nodes (freed s (ptr - sizeof_memory_node) n) (ptr - sizeof_memory_node)
             = Some (n\<lparr>is_used := False\<rparr>)"
proof -
  define a where "a = ptr - 40"
  have a40: "ptr - sizeof_memory_node = a" by (simp add: a_def sizeof_memory_node_def)
  have ma: "a \<in> set as" using mem a40 by simp
  then obtain xs ys where as: "as = xs @ a # ys" and nx: "a \<notin> set xs"
    by (auto dest: split_list_first)
  have rm: "remove1 a as = xs @ ys"
    using as nx by (simp add: remove1_append)
  have l: "linked s (xs @ a # ys)" using sound_linked [OF snd] as by simp
  obtain c where c: "nodes s a = Some c"
    using l ma as by (auto simp: linked_def chain_def dest: dlseg_defined)
  have "unat a + 40 < 2 ^ 64"
    using sound_ends [OF snd ma c] by simp
  from ptr_nonzero [OF this] have pz: "ptr \<noteq> 0"
    by (auto simp: a_def sizeof_memory_node_def)
  from pool_free_linked [OF l pz] obtain n where
    n: "nodes s a = Some n" "is_used n" "pool_free s ptr = Ok (freed s a n)"
      "linked (freed s a n) (xs @ ys)" "agree (nodes s) (nodes (freed s a n)) (xs @ ys)"
      "nodes (freed s a n) a = Some (n\<lparr>is_used := False\<rparr>)"
    by (auto simp: a_def)
  have "pool_wf (freed s a n) (xs @ ys)"
    using snd unfolding sound_def
  proof
    assume "pool_wf s as"
    then have "pool_wf s (xs @ a # ys)" using as by simp
    from pool_free_wf [OF this _ pz, of ] n(1) show ?thesis
      by (auto simp: a_def)
  next
    assume oh: "overhang s as"
    then have one: "as = [pool_addr s + sizeof_memory_block]"
      and cnt: "counted s as"
      and geo: "data_end s + 80 < 2 ^ 64" "40 \<le> unat (total_size (block s))"
        "upper_limit (block s) = pool_addr s + total_size (block s)"
      and fp: "footprint n \<le> unat (total_size (block s))"
      using n(1) ma by (auto simp: overhang_def split: option.splits)
    from one as have e: "xs = []" "ys = []"
      by (auto simp: append_eq_Cons_conv)
    have u: "unat (used_memory (block s)) = footprint n"
      "unat (num_allocations (block s)) = 1"
      using cnt as e n(1) by (simp_all add: counted_def)
    have t: "unat (total_size (block s)) < 2 ^ 64"
      using unsigned_less [of "total_size (block s)"] by simp
    have sz: "unat (node_size n + 40) = footprint n"
      using fp t by (simp add: footprint_def unat_add64)
    have c': "counted (freed s a n) []"
      using u sz by (simp add: counted_def freed_def unat_sub64)
    have p': "placed (freed s a n) []"
      using geo by (simp add: placed_def freed_def data_start_def data_end_def)
    from n(4) c' p' e show ?thesis by (simp add: pool_wf_def)
  qed
  with n rm pz show ?thesis
    by (auto simp: a40)
qed

lemma create_wf:
  assumes "create_memory_pool m sz = Some s" and "unat m + unat sz + 80 < 2 ^ 64"
  shows "pool_wf s [] \<and> data_end s + 80 < 2 ^ 64"
proof -
  from assms(1) have s: "s = \<lparr>pool_addr = m,
                 block = \<lparr>first = 0, upper_limit = m + sz, total_size = sz,
                          used_memory = 0, num_allocations = 0\<rparr>,
                 nodes = (\<lambda>_. None)\<rparr>"
    and m: "m \<noteq> 0" and big: "\<not> sz < MIN_BLOCK_SIZE"
    by (auto simp: create_memory_pool_def split: if_splits)
  from big have "48 \<le> unat sz"
    by (simp add: MIN_BLOCK_SIZE_def sizeof_memory_node_def MIN_ALIGNMENT_def word_less_nat_alt)
  then show ?thesis
    using m assms(2)
    by (simp add: s pool_wf_def linked_def chain_def counted_def placed_def data_start_def
        data_end_def)
qed

text \<open>An ordinary run keeps the heap sound, and its live pointers are the records of the list.\<close>

lemma ordinary_run_sound:
  "ordinary_run s live ops = Some (s', live') \<Longrightarrow> sound s as \<Longrightarrow>
   data_end s + 80 < 2 ^ 64 \<Longrightarrow> set live = (\<lambda>a. a + sizeof_memory_node) ` set as \<Longrightarrow>
   \<exists>as'. sound s' as' \<and> data_end s' + 80 < 2 ^ 64 \<and>
     set live' = (\<lambda>a. a + sizeof_memory_node) ` set as' \<and> pool_addr s' = pool_addr s"
proof (induction ops arbitrary: s live as)
  case Nil
  then show ?case by auto
next
  case (Cons x ops)
  show ?case
  proof (cases x)
    case (Alloc n)
    from Cons.prems(1) Alloc obtain s1 p where
      nw: "unat (align_size n) + 40 < 2 ^ 64"
      and r: "pool_alloc s (pool_addr s) n = Some (Ok (s1, p))"
      and rest: "ordinary_run s1 (if p = 0 then live else p # live) ops = Some (s', live')"
      by (auto split: if_splits option.splits outcome.splits)
    have "pool_wf s as \<or> overhang s as"
      using Cons.prems(2) by (simp add: sound_def)
    then have "\<exists>as1. sound s1 as1 \<and> data_end s1 + 80 < 2 ^ 64 \<and>
            set (if p = 0 then live else p # live) = (\<lambda>a. a + sizeof_memory_node) ` set as1 \<and>
            pool_addr s1 = pool_addr s"
    proof
      assume wf: "pool_wf s as"
      from pool_alloc_wf [OF wf Cons.prems(3) nw] r have
        same: "pool_addr s1 = pool_addr s" "total_size (block s1) = total_size (block s)"
        and z: "p = 0 \<longrightarrow> s1 = s"
        and nz: "p \<noteq> 0 \<longrightarrow> (\<exists>as'. sound s1 as' \<and> set as' = insert (p - sizeof_memory_node) (set as))"
        by auto
      have de: "data_end s1 + 80 < 2 ^ 64"
        using Cons.prems(3) same by (simp add: data_end_def)
      show ?thesis
      proof (cases "p = 0")
        case True
        with z Cons.prems(2,4) de same show ?thesis by auto
      next
        case False
        with nz obtain as1 where "sound s1 as1" "set as1 = insert (p - sizeof_memory_node) (set as)"
          by blast
        with False Cons.prems(4) de same show ?thesis
          by (intro exI [of _ as1]) simp
      qed
    next
      assume oh: "overhang s as"
      from overhang_alloc [OF oh nw] r have "s1 = s" "p = 0" by simp_all
      with Cons.prems(2,3,4) show ?thesis by auto
    qed
    then obtain as1 where as1: "sound s1 as1" "data_end s1 + 80 < 2 ^ 64"
      "set (if p = 0 then live else p # live) = (\<lambda>a. a + sizeof_memory_node) ` set as1"
      "pool_addr s1 = pool_addr s"
      by blast
    from Cons.IH [OF rest as1(1,2,3)] as1(4) show ?thesis by auto
  next
    case (Free p)
    from Cons.prems(1) Free obtain s1 where
      ok: "p = 0 \<or> p \<in> set live"
      and r: "pool_free s p = Ok s1"
      and rest: "ordinary_run s1 (removeAll p live) ops = Some (s', live')"
      by (auto split: if_splits outcome.splits)
    have nonzero: "0 \<notin> set live"
    proof
      assume "0 \<in> set live"
      then obtain a where a: "a \<in> set as" "a + sizeof_memory_node = 0"
        using Cons.prems(4) by auto
      obtain c where c: "nodes s a = Some c"
        using sound_linked [OF Cons.prems(2)] a(1)
        by (auto simp: linked_def chain_def dest: dlseg_defined)
      have "unat a + 40 < 2 ^ 64"
        using sound_ends [OF Cons.prems(2) a(1) c] by simp
      from ptr_nonzero [OF this] a(2) show False by simp
    qed
    have "\<exists>as1. sound s1 as1 \<and> data_end s1 + 80 < 2 ^ 64 \<and>
            set (removeAll p live) = (\<lambda>a. a + sizeof_memory_node) ` set as1 \<and>
            pool_addr s1 = pool_addr s"
    proof (cases "p = 0")
      case True
      then have "s1 = s" using r by (simp add: pool_free_def)
      moreover have "set (removeAll p live) = set live"
        using True nonzero by simp
      ultimately show ?thesis using Cons.prems(2,3,4) by auto
    next
      case False
      with ok have "p \<in> set live" by simp
      then obtain a where a: "a \<in> set as" "p = a + sizeof_memory_node"
        using Cons.prems(4) by auto
      then have pa: "p - sizeof_memory_node = a" by simp
      from sound_free [OF Cons.prems(2), of p] a(1) pa r obtain n where
        n: "s1 = freed s a n" "pool_wf s1 (remove1 a as)"
        by auto
      have dist: "distinct as"
        using sound_linked [OF Cons.prems(2)] by (simp add: linked_def)
      have "set (removeAll p live) = set live - {p}" by simp
      also have "\<dots> = (\<lambda>a. a + sizeof_memory_node) ` (set as - {a})"
        using Cons.prems(4) a(2) by auto
      also have "set as - {a} = set (remove1 a as)"
        using dist by simp
      finally have "set (removeAll p live) = (\<lambda>a. a + sizeof_memory_node) ` set (remove1 a as)" .
      moreover have "data_end s1 + 80 < 2 ^ 64" "pool_addr s1 = pool_addr s"
        using Cons.prems(3) by (simp_all add: n(1) freed_def data_end_def)
      ultimately show ?thesis
        using n(2) by (intro exI [of _ "remove1 a as"]) (simp add: sound_def)
    qed
    then obtain as1 where as1: "sound s1 as1" "data_end s1 + 80 < 2 ^ 64"
      "set (removeAll p live) = (\<lambda>a. a + sizeof_memory_node) ` set as1"
      "pool_addr s1 = pool_addr s"
      by blast
    from Cons.IH [OF rest as1(1,2,3)] as1(4) show ?thesis by auto
  qed
qed


lemma created_run_sound:
  assumes "create_memory_pool m sz = Some s0" and "unat m + unat sz + 80 < 2 ^ 64"
    and "ordinary_run s0 [] ops = Some (s, live)"
  shows "\<exists>as. sound s as \<and> set live = (\<lambda>a. a + sizeof_memory_node) ` set as"
proof -
  from create_wf [OF assms(1,2)] have "sound s0 []" "data_end s0 + 80 < 2 ^ 64"
    by (simp_all add: sound_def)
  from ordinary_run_sound [OF assms(3) this] show ?thesis by auto
qed


text \<open>
  In any heap, a returning \<^verbatim>\<open>pool_alloc\<close> either leaves the heap as it was and returns
  NULL, or has written a header 40 bytes before the pointer it returns.
\<close>

lemma insert_after_result:
  "insert_after s pl al a c e = Ok (s', p) \<Longrightarrow> nodes s' (p - sizeof_memory_node) \<noteq> None"
  by (auto simp: insert_after_def Let_def split: option.splits if_splits)

lemma walk_result:
  assumes "walk s pl al cur = Some r"
  shows "case r of Ok (s', p) \<Rightarrow> (s' = s \<and> p = 0) \<or> nodes s' (p - sizeof_memory_node) \<noteq> None
         | _ \<Rightarrow> True"
proof (rule walk.raw_induct [OF _ assms])
  fix walk' s pl al cur r
  assume IH: "\<And>s pl al cur r. walk' s pl al cur = Some r \<Longrightarrow>
         (case r of Ok (s', p) \<Rightarrow> (s' = s \<and> p = 0) \<or> nodes s' (p - sizeof_memory_node) \<noteq> None
          | _ \<Rightarrow> True)"
    and body: "(if cur = 0 then Some (Ok (s, 0))
      else case nodes s cur of None \<Rightarrow> Some Fault
           | Some c \<Rightarrow>
               let current_end = cur + sizeof_memory_node + node_size c;
                   gap_size = if nxt c \<noteq> 0 then nxt c - current_end
                     else upper_limit (block s) - current_end
               in if al + sizeof_memory_node \<le> gap_size
                  then Some (insert_after s pl al cur c current_end)
                  else walk' s pl al (nxt c)) = Some r"
  show "case r of Ok (s', p) \<Rightarrow> (s' = s \<and> p = 0) \<or> nodes s' (p - sizeof_memory_node) \<noteq> None
          | _ \<Rightarrow> True"
  proof (cases "cur = 0")
    case True
    then show ?thesis using body by auto
  next
    case False
    show ?thesis
    proof (cases "nodes s cur")
      case None
      then show ?thesis using body False by auto
    next
      case (Some c)
      let ?e = "cur + sizeof_memory_node + node_size c"
      let ?gap = "if nxt c \<noteq> 0 then nxt c - ?e else upper_limit (block s) - ?e"
      show ?thesis
      proof (cases "al + sizeof_memory_node \<le> ?gap")
        case True
        then have "insert_after s pl al cur c ?e = r"
          using body False Some by (simp add: Let_def)
        then show ?thesis
          using insert_after_result [of s pl al cur c ?e] by (cases r) auto
      next
        case False
        then have "walk' s pl al (nxt c) = Some r"
          using body \<open>cur \<noteq> 0\<close> Some by (simp add: Let_def)
        from IH [OF this] show ?thesis .
      qed
    qed
  qed
qed

lemma pool_alloc_result:
  assumes r: "pool_alloc s pl sz = Some (Ok (s', p))"
  shows "(s' = s \<and> p = 0) \<or> nodes s' (p - sizeof_memory_node) \<noteq> None"
proof -
  have pl: "pl = pool_addr s" "pl \<noteq> 0"
    using r by (auto simp: pool_alloc_def split: if_splits)
  let ?st = "pl + sizeof_memory_block"
  show ?thesis
  proof (cases "align_size sz = 0 \<or>
                align_size sz + sizeof_memory_node > total_size (block s) - used_memory (block s)")
    case True
    then show ?thesis
      using r pl by (auto simp: pool_alloc_def Let_def split: if_splits)
  next
    case ok: False
    show ?thesis
    proof (cases "first (block s) = 0")
      case True
      then show ?thesis
        using r ok pl by (auto simp: pool_alloc_def Let_def split: if_splits)
    next
      case ne: False
      show ?thesis
      proof (cases "first (block s) - ?st \<ge> align_size sz + sizeof_memory_node")
        case True
        let ?h1 = "(nodes s)(?st \<mapsto> init_node (align_size sz) 0 (first (block s)) pl)"
        from r ok ne True pl obtain f where "?h1 (first (block s)) = Some f"
          and "s' = s\<lparr>nodes := ?h1(first (block s) \<mapsto> f\<lparr>prev := ?st\<rparr>),
                 block := (account (block s) (align_size sz))\<lparr>first := ?st\<rparr>\<rparr>"
          and "p = ?st + sizeof_memory_node"
          by (cases "?h1 (first (block s))")
             (simp_all add: pool_alloc_def Let_def split: if_splits)
        then show ?thesis by auto
      next
        case False
        then have "walk s pl (align_size sz) (first (block s)) = Some (Ok (s', p))"
          using r ok ne pl by (simp add: pool_alloc_def Let_def split: if_splits)
        from walk_result [OF this] show ?thesis by simp
      qed
    qed
  qed
qed

section \<open>The example heaps, evaluated\<close>

lemmas sizes = sizeof_memory_node_def sizeof_memory_block_def MIN_ALIGNMENT_def MIN_BLOCK_SIZE_def

lemmas alloc_eval = pool_alloc_def pool_free_def align_size_def sizes walk.simps
  init_node_def account_def insert_after_def gap_after_def Let_def

lemmas wf_eval = pool_wf_def linked_def counted_def placed_def chain_def data_start_def
  data_end_def footprint_def init_node_def

lemma wf_pool150_a: "pool_wf pool150_a [4136]"
  by (simp add: wf_eval pool150_a_def)

lemma gaps_pool150_a:
  "gaps (nodes pool150_a) (data_start pool150_a) (data_end pool150_a) [4136]
     = [(4136, 0), (4192, 54)]"
  by (simp add: pool150_a_def wf_eval)

lemma pool150_a_alloc_20: "pool_alloc pool150_a 4096 20 = Some (Ok (pool150_a, 0))"
  by (simp add: pool150_a_def alloc_eval)

lemma pool150_a_alloc_1000: "pool_alloc pool150_a 4096 1000 = Some (Ok (pool150_a, 0))"
  by (simp add: pool150_a_def alloc_eval)

lemma pool150_a_free: "pool_free pool150_a 4176 = Ok pool150_f"
  by (simp add: pool150_a_def pool150_f_def alloc_eval)

lemma pool150_f_alloc_4: "pool_alloc pool150_f 4096 4 = Some (Ok (pool150_c, 4176))"
  by (simp add: pool150_f_def pool150_c_def alloc_eval)

lemma pool150_alloc_100: "pool_alloc pool150 4096 100 = Some (Ok (pool150_big, 4176))"
  by (simp add: pool150_def pool150_big_def alloc_eval)

lemma pool150_alloc_over:
  "pool_alloc pool150 4096 18446744073709551576 = Some (Ok (pool150_over, 4176))"
  by (simp add: pool150_def pool150_over_def alloc_eval)

lemma pool150_a_alloc_over:
  "pool_alloc pool150_a 4096 18446744073709551576 = Some (Ok (pool150_cyc, 4176))"
  by (simp add: pool150_a_def pool150_cyc_def alloc_eval)

lemma frag_low_eq: "frag_low = \<lparr>pool_addr = 4096,
    block = \<lparr>first = 4280, upper_limit = 4472, total_size = 376, used_memory = 96,
             num_allocations = 2\<rparr>,
    nodes = (\<lambda>_. None)
      (4136 \<mapsto> \<lparr>node_size = 104, is_used = False, prev = 0, nxt = 4280, pool = 4096\<rparr>,
       4280 \<mapsto> \<lparr>node_size = 8, is_used = True, prev = 0, nxt = 4376, pool = 4096\<rparr>,
       4328 \<mapsto> \<lparr>node_size = 8, is_used = False, prev = 4280, nxt = 4376, pool = 4096\<rparr>,
       4376 \<mapsto> \<lparr>node_size = 8, is_used = True, prev = 4280, nxt = 0, pool = 4096\<rparr>)\<rparr>"
  by (simp add: frag_low_def pool376_def alloc_eval) (rule ext, simp)

lemma frag_mid_eq: "frag_mid = \<lparr>pool_addr = 4096,
    block = \<lparr>first = 4136, upper_limit = 4472, total_size = 376, used_memory = 144,
             num_allocations = 3\<rparr>,
    nodes = (\<lambda>_. None)
      (4136 \<mapsto> \<lparr>node_size = 8, is_used = True, prev = 0, nxt = 4232, pool = 4096\<rparr>,
       4184 \<mapsto> \<lparr>node_size = 8, is_used = False, prev = 4136, nxt = 4232, pool = 4096\<rparr>,
       4232 \<mapsto> \<lparr>node_size = 8, is_used = True, prev = 4136, nxt = 4328, pool = 4096\<rparr>,
       4280 \<mapsto> \<lparr>node_size = 8, is_used = False, prev = 4232, nxt = 4328, pool = 4096\<rparr>,
       4328 \<mapsto> \<lparr>node_size = 8, is_used = True, prev = 4232, nxt = 0, pool = 4096\<rparr>)\<rparr>"
  by (simp add: frag_mid_def pool376_def alloc_eval) (rule ext, simp)

lemma wf_frag_low: "pool_wf frag_low [4280, 4376]"
  by (simp add: frag_low_eq wf_eval)

lemma gaps_frag_low:
  "gaps (nodes frag_low) (data_start frag_low) (data_end frag_low) [4280, 4376]
     = [(4136, 144), (4328, 48), (4424, 48)]"
  by (simp add: frag_low_eq wf_eval)

lemma wf_frag_mid: "pool_wf frag_mid [4136, 4232, 4328]"
  by (simp add: frag_mid_eq wf_eval)

lemma gaps_frag_mid:
  "gaps (nodes frag_mid) (data_start frag_mid) (data_end frag_mid) [4136, 4232, 4328]
     = [(4136, 0), (4184, 48), (4280, 48), (4376, 96)]"
  by (simp add: frag_mid_eq wf_eval)

lemma frag_low_realloc: "alloc_after_free frag_low 4416 104 = Some (Ok 4176)"
  by (simp add: alloc_after_free_def frag_low_eq alloc_eval)

lemma frag_mid_realloc: "alloc_after_free frag_mid 4272 104 = Some (Ok 4224)"
  by (simp add: alloc_after_free_def frag_mid_eq alloc_eval)

lemma overhang_pool150_big: "overhang pool150_big [4136]"
  by (simp add: overhang_def linked_def counted_def chain_def data_end_def footprint_def
      init_node_def pool150_big_def sizeof_memory_block_def)

lemma pool150_big_alloc_8: "pool_alloc pool150_big 4096 8 = Some (Ok (pool150_big, 0))"
  by (simp add: pool150_big_def alloc_eval)

lemma pool150_run_100: "ordinary_run pool150 [] [Alloc 100] = Some (pool150_big, [4176])"
  by (simp add: pool150_def pool150_big_def alloc_eval)

lemma pool376_created: "create_memory_pool 4096 376 = Some pool376"
  by (simp add: create_memory_pool_def pool376_def sizes)

lemma frag_mid_run:
  "ordinary_run pool376 [] [Alloc 8, Alloc 8, Alloc 8, Alloc 8, Alloc 8, Free 4224, Free 4320]
     = Some (frag_mid, [4368, 4272, 4176])"
  by (simp add: frag_mid_def pool376_def alloc_eval)


lemma frag_low_alloc_0: "pool_alloc frag_low 4096 0 = Some (Ok (frag_low, 0))"
  by (simp add: pool_alloc_def align_size_def MIN_ALIGNMENT_def frag_low_eq)

lemma pool150_a_alloc_0: "pool_alloc pool150_a 4096 0 = Some (Ok (pool150_a, 0))"
  by (simp add: pool_alloc_def align_size_def MIN_ALIGNMENT_def pool150_a_def)

lemma pool150_free_foreign: "pool_free pool150 4176 = Fault"
  by (simp add: pool150_def pool_free_def sizes)


text \<open>
  First fit for a request whose aligned size is not zero: in a well-formed pool in which
  some gap holds the aligned size plus the header, \<^verbatim>\<open>pool_alloc\<close> returns a non-null
  data pointer 40 bytes into a sufficient gap whose start is the lowest among all
  sufficient gaps. In \<open>frag_low\<close> a request of 8 bytes fits all three gaps and lands in
  the lowest, at 4136.
\<close>

lemma first_fit_placement:
  assumes "pool_wf s as" and "align_size n \<noteq> 0"
    and "g \<in> set (gaps (nodes s) (data_start s) (data_end s) as)"
    and "unat (align_size n) + 40 \<le> snd g"
  shows "\<exists>s' p st len nd.
           pool_alloc s (pool_addr s) n = Some (Ok (s', p)) \<and> p \<noteq> 0 \<and> unat p = st + 40 \<and>
           (st, len) \<in> set (gaps (nodes s) (data_start s) (data_end s) as) \<and>
           unat (align_size n) + 40 \<le> len \<and>
           (\<forall>g' \<in> set (gaps (nodes s) (data_start s) (data_end s) as).
              unat (align_size n) + 40 \<le> snd g' \<longrightarrow> st \<le> fst g') \<and>
           nodes s' (p - sizeof_memory_node) = Some nd \<and> node_size nd = align_size n \<and>
           is_used nd \<and>
           used_memory (block s') = used_memory (block s) + (align_size n + sizeof_memory_node) \<and>
           num_allocations (block s') = num_allocations (block s) + 1"
proof -
  let ?G = "gaps (nodes s) (data_start s) (data_end s) as"
  let ?P = "\<lambda>g. unat (align_size n) + 40 \<le> snd g"
  from pool_alloc_lowest_fit [OF assms] obtain s' p f nd where
    r: "find ?P ?G = Some f" "pool_alloc s (pool_addr s) n = Some (Ok (s', p))" "p \<noteq> 0"
       "unat p = fst f + 40" "nodes s' (p - sizeof_memory_node) = Some nd"
       "node_size nd = align_size n" "is_used nd"
       "used_memory (block s') = used_memory (block s) + (align_size n + sizeof_memory_node)"
       "num_allocations (block s') = num_allocations (block s) + 1"
    by blast
  from assms(1) have lay: "laid_out (nodes s) (data_start s) (data_end s) as"
    by (simp add: pool_wf_def placed_def)
  from r(1) have fin: "(fst f, snd f) \<in> set ?G" and fP: "?P f"
    by (auto simp: find_Some_iff in_set_conv_nth)
  have low: "\<forall>g' \<in> set ?G. ?P g' \<longrightarrow> fst f \<le> fst g'"
    using find_lowest [OF gaps_sorted [OF lay] r(1)] by blast
  from r fin fP low show ?thesis
    by (intro exI [of _ s'] exI [of _ p] exI [of _ "fst f"] exI [of _ "snd f"] exI [of _ nd])
       simp
qed

lemma first_fit_three_gaps:
  "\<exists>s'. pool_alloc frag_low 4096 8 = Some (Ok (s', 4176))"
proof -
  have a: "align_size 8 \<noteq> 0" "unat (align_size 8) + 40 \<le> snd (4328 :: nat, 48 :: nat)"
    by (simp_all add: align_size_def MIN_ALIGNMENT_def)
  have g: "(4328, 48) \<in> set (gaps (nodes frag_low) (data_start frag_low)
              (data_end frag_low) [4280, 4376])"
    unfolding gaps_frag_low by simp
  from first_fit_placement [OF wf_frag_low a(1) g a(2)] obtain s' p st len where
    r: "pool_alloc frag_low (pool_addr frag_low) 8 = Some (Ok (s', p))" "unat p = st + 40"
       "(st, len) \<in> set [(4136 :: nat, 144 :: nat), (4328, 48), (4424, 48)]"
       "\<forall>g' \<in> set [(4136 :: nat, 144 :: nat), (4328, 48), (4424, 48)].
          unat (align_size 8) + 40 \<le> snd g' \<longrightarrow> st \<le> fst g'"
    unfolding gaps_frag_low by blast
  from r(4) have "st \<le> 4136"
    by (simp add: align_size_def MIN_ALIGNMENT_def)
  with r(3) have "st = 4136" by auto
  with r(2) have "unat p = unat (4176 :: 64 word)" by simp
  then have "p = 4176" by (simp only: word_unat_eq_iff)
  with r(1) show ?thesis by (auto simp: frag_low_eq)
qed

section \<open>The claims\<close>

text \<open>
  C1. After every operation \<open>used_memory\<close> is the sum of size plus header over the
  records reachable from the list head, and \<open>num_allocations\<close> is the length of that
  list. The code breaks this for a request whose aligned size plus header wraps around:
  on the fresh pool of 150 bytes, \<^verbatim>\<open>pool_alloc(pool, 2^64 - 40)\<close> passes the budget
  test (the sum is 0), returns a data pointer and links a record of \<open>2^64 - 40\<close>
  bytes, whose footprint is \<open>2^64\<close>, while \<open>used_memory\<close> stays 0. On the pool that
  already holds one record, the same request overwrites that record's header with one
  whose \<^verbatim>\<open>next\<close> is itself, and \<open>num_allocations\<close> becomes 2.
\<close>

theorem counters_after_wrapped_request:
  "create_memory_pool 4096 150 = Some pool150 \<and>
   pool_alloc pool150 4096 18446744073709551576 = Some (Ok (pool150_over, 4176)) \<and>
   linked pool150_over [4136] \<and>
   unat (used_memory (block pool150_over)) = 0 \<and>
   live_sum (nodes pool150_over) [4136] = 18446744073709551616 \<and>
   pool_alloc pool150 4096 12 = Some (Ok (pool150_a, 4176)) \<and>
   pool_alloc pool150_a 4096 18446744073709551576 = Some (Ok (pool150_cyc, 4176)) \<and>
   num_allocations (block pool150_cyc) = 2 \<and> first (block pool150_cyc) = 4136 \<and>
   map_option nxt (nodes pool150_cyc 4136) = Some 4136"
  by (simp add: pool150_created pool150_alloc_over pool150_a_allocated pool150_a_alloc_over)
     (simp add: pool150_over_def pool150_cyc_def linked_def chain_def init_node_def footprint_def)

text \<open>
  C2. \<^verbatim>\<open>pool_alloc\<close> uses first-fit placement: whenever some gap (at the start of the data
  area, between two records, or before the upper bound) holds the aligned size plus the
  header, the new record is placed in the sufficient gap with the lowest start. The code
  breaks this for a request of size 0, which the repository's test expects to be served
  (\<^verbatim>\<open>assert(empty != NULL)\<close>): the aligned size is 0, so a gap of 40 bytes is sufficient,
  and the guard for a zero aligned size returns NULL before any gap is looked at. In
  \<open>frag_low\<close> all three gaps (144, 48 and 48 bytes) are sufficient, and in the pool of
  150 bytes with one record the gap of 54 bytes is: both calls return NULL and leave the
  heap as it was. (A request of 8 bytes on \<open>frag_low\<close> is placed in the lowest of the
  three gaps.)
\<close>

theorem zero_size_not_placed:
  "pool_wf frag_low [4280, 4376] \<and>
   gaps (nodes frag_low) (data_start frag_low) (data_end frag_low) [4280, 4376]
     = [(4136, 144), (4328, 48), (4424, 48)] \<and>
   unat (align_size 0) + 40 = 40 \<and>
   pool_alloc frag_low 4096 0 = Some (Ok (frag_low, 0)) \<and>
   (\<exists>s'. pool_alloc frag_low 4096 8 = Some (Ok (s', 4176))) \<and>
   pool_wf pool150_a [4136] \<and>
   gaps (nodes pool150_a) (data_start pool150_a) (data_end pool150_a) [4136]
     = [(4136, 0), (4192, 54)] \<and>
   pool_alloc pool150_a 4096 0 = Some (Ok (pool150_a, 0))"
  unfolding gaps_frag_low gaps_pool150_a
  by (simp add: wf_frag_low frag_low_alloc_0 wf_pool150_a pool150_a_alloc_0 align_size_def
      MIN_ALIGNMENT_def first_fit_three_gaps)

text \<open>
  C3. The records reachable from the list head are in ascending address order, do not
  overlap, and lie within the data area. The code breaks the last part: the budget test
  compares against \<open>total_size\<close>, which includes the 40 bytes of the pool header, and
  the branch for the empty list places the record without measuring the data area. On
  the fresh pool of 150 bytes (data area \<open>[4136, 4246)\<close>),
  \<^verbatim>\<open>pool_alloc(pool, 100)\<close> returns a record of footprint 144 at 4136, which ends at
  4280, beyond \<open>upper_limit\<close>.
\<close>

theorem record_past_upper_limit:
  "create_memory_pool 4096 150 = Some pool150 \<and>
   pool_alloc pool150 4096 100 = Some (Ok (pool150_big, 4176)) \<and>
   linked pool150_big [4136] \<and> counted pool150_big [4136] \<and>
   map_option footprint (nodes pool150_big 4136) = Some 144 \<and>
   unat (upper_limit (block pool150_big)) = 4246 \<and>
   \<not> laid_out (nodes pool150_big) (data_start pool150_big) (data_end pool150_big) [4136]"
  by (simp add: pool150_created pool150_alloc_100)
     (simp add: pool150_big_def wf_eval)




text \<open>
  C5. The scenario \<^verbatim>\<open>create(150); A = allocate(12); B = allocate(20); free(A);
  C = allocate(4); stats\<close>, with \<^verbatim>\<open>malloc\<close> returning 4096. The sizes round to 16, 24
  and 8. The first allocation succeeds; the second returns NULL, because it needs
  24 + 40 bytes and 54 remain behind A; C is placed where A was; the statistics are
  capacity 150, used 48 and count 1.
\<close>

theorem scenario_150:
  "create_memory_pool 4096 150 = Some pool150 \<and>
   align_size 12 = 16 \<and> align_size 20 = 24 \<and> align_size 4 = 8 \<and>
   pool_alloc pool150 4096 12 = Some (Ok (pool150_a, 4176)) \<and>
   pool_alloc pool150_a 4096 20 = Some (Ok (pool150_a, 0)) \<and>
   pool_free pool150_a 4176 = Ok pool150_f \<and>
   pool_alloc pool150_f 4096 4 = Some (Ok (pool150_c, 4176)) \<and>
   get_pool_stats pool150_c 4096 = Ok (150, 48, 1)"
  by (simp add: pool150_created pool150_a_allocated pool150_a_alloc_20 pool150_a_free
      pool150_f_alloc_4)
     (simp add: align_size_def MIN_ALIGNMENT_def get_pool_stats_def pool150_c_def)

text \<open>
  C6, amended. \<^verbatim>\<open>pool_alloc\<close> has one failure value. In a well-formed pool, for a
  request whose aligned size plus header does not wrap around: when that sum exceeds
  \<open>total_size - used_memory\<close> the call returns NULL and leaves the heap as it was;
  when the pool holds at least one record, the budget suffices and no gap holds the
  sum, the call returns the same NULL and leaves the heap as it was.
\<close>

theorem alloc_failures_same_null:
  "pool_wf s as \<and> unat (align_size sz) + 40 < 2 ^ 64 \<longrightarrow>
     (unat (total_size (block s)) - unat (used_memory (block s)) < unat (align_size sz) + 40
        \<longrightarrow> pool_alloc s (pool_addr s) sz = Some (Ok (s, 0))) \<and>
     (as \<noteq> [] \<and>
      unat (align_size sz) + 40 \<le> unat (total_size (block s)) - unat (used_memory (block s)) \<and>
      (\<forall>g \<in> set (gaps (nodes s) (data_start s) (data_end s) as).
         snd g < unat (align_size sz) + 40)
        \<longrightarrow> pool_alloc s (pool_addr s) sz = Some (Ok (s, 0)))"
  using pool_alloc_over_budget pool_alloc_no_fit by blast

theorem alloc_failures_same_null_witness:
  "pool_alloc pool150_a (pool_addr pool150_a) 1000 = Some (Ok (pool150_a, 0)) \<and>
   pool_alloc pool150_a (pool_addr pool150_a) 20 = Some (Ok (pool150_a, 0))"
proof -
  have "unat (align_size 1000) + 40 < 2 ^ 64"
    "unat (total_size (block pool150_a)) - unat (used_memory (block pool150_a))
       < unat (align_size 1000) + 40"
    by (simp_all add: align_size_def MIN_ALIGNMENT_def pool150_a_def)
  with alloc_failures_same_null [of pool150_a "[4136]" 1000] wf_pool150_a
  have a: "pool_alloc pool150_a (pool_addr pool150_a) 1000 = Some (Ok (pool150_a, 0))"
    by blast
  have "unat (align_size 20) + 40 < 2 ^ 64"
    "unat (align_size 20) + 40
       \<le> unat (total_size (block pool150_a)) - unat (used_memory (block pool150_a))"
    "\<forall>g \<in> set (gaps (nodes pool150_a) (data_start pool150_a) (data_end pool150_a) [4136]).
       snd g < unat (align_size 20) + 40"
    unfolding gaps_pool150_a
    by (simp_all add: align_size_def MIN_ALIGNMENT_def pool150_a_def)
  with alloc_failures_same_null [of pool150_a "[4136]" 20] wf_pool150_a
  have "pool_alloc pool150_a (pool_addr pool150_a) 20 = Some (Ok (pool150_a, 0))"
    by blast
  with a show ?thesis by simp
qed

text \<open>
  C6 as stated fails: on the pool with one record, a request of 1000 bytes exceeds the
  budget and a request of 20 bytes fits the budget but no gap, and both calls return the
  same value.
\<close>

theorem alloc_failures_counterexample:
  "unat (total_size (block pool150_a)) - unat (used_memory (block pool150_a))
     < unat (align_size 1000) + 40 \<and>
   unat (align_size 20) + 40
     \<le> unat (total_size (block pool150_a)) - unat (used_memory (block pool150_a)) \<and>
   pool_alloc pool150_a 4096 1000 = Some (Ok (pool150_a, 0)) \<and>
   pool_alloc pool150_a 4096 20 = Some (Ok (pool150_a, 0)) \<and>
   pool_alloc pool150_a 4096 1000 = pool_alloc pool150_a 4096 20"
  by (simp add: pool150_a_alloc_1000 pool150_a_alloc_20)
     (simp add: align_size_def MIN_ALIGNMENT_def pool150_a_def)

text \<open>
  C7, amended. \<^verbatim>\<open>pool_free\<close> of the null pointer returns with the heap unchanged. For a
  data pointer whose record is in the list of a sound heap the call returns:
  \<open>used_memory\<close> is decremented by the size plus the header, \<open>num_allocations\<close> by
  one, the record is marked not in use and is unlinked from the list, and the heap is well
  formed; \<^verbatim>\<open>pool_free\<close> of the same pointer right afterwards fails the assertion. The
  live pointers of an ordinary run are such pointers. Nothing is said about any other
  non-null pointer.
\<close>

theorem pool_free_contract:
  "pool_free s 0 = Ok s \<and>
   (sound s as \<and> ptr - sizeof_memory_node \<in> set as \<longrightarrow>
      (\<exists>m s'. nodes s (ptr - sizeof_memory_node) = Some m \<and> is_used m \<and>
         pool_free s ptr = Ok s' \<and>
         used_memory (block s') = used_memory (block s) - (node_size m + sizeof_memory_node) \<and>
         num_allocations (block s') = num_allocations (block s) - 1 \<and>
         total_size (block s') = total_size (block s) \<and>
         upper_limit (block s') = upper_limit (block s) \<and>
         nodes s' (ptr - sizeof_memory_node) = Some (m\<lparr>is_used := False\<rparr>) \<and>
         pool_wf s' (remove1 (ptr - sizeof_memory_node) as) \<and>
         pool_free s' ptr = AssertFail)) \<and>
   (create_memory_pool m0 c = Some s0 \<and> unat m0 + unat c + 80 < 2 ^ 64 \<and>
    ordinary_run s0 [] ops = Some (s, live) \<and> ptr \<in> set live \<longrightarrow>
      (\<exists>s'. pool_free s ptr = Ok s' \<and>
         num_allocations (block s') = num_allocations (block s) - 1 \<and>
         pool_free s' ptr = AssertFail))"
proof -
  have live: "\<exists>m s'. nodes s (ptr - sizeof_memory_node) = Some m \<and> is_used m \<and>
         pool_free s ptr = Ok s' \<and>
         used_memory (block s') = used_memory (block s) - (node_size m + sizeof_memory_node) \<and>
         num_allocations (block s') = num_allocations (block s) - 1 \<and>
         total_size (block s') = total_size (block s) \<and>
         upper_limit (block s') = upper_limit (block s) \<and>
         nodes s' (ptr - sizeof_memory_node) = Some (m\<lparr>is_used := False\<rparr>) \<and>
         pool_wf s' (remove1 (ptr - sizeof_memory_node) as) \<and>
         pool_free s' ptr = AssertFail"
    if snd: "sound s as" and mem: "ptr - sizeof_memory_node \<in> set as" for s as
  proof -
    define a where "a = ptr - sizeof_memory_node"
    from sound_free [OF snd mem] obtain n where
      n: "nodes s a = Some n" "is_used n" "pool_free s ptr = Ok (freed s a n)"
        "pool_wf (freed s a n) (remove1 a as)"
        "nodes (freed s a n) a = Some (n\<lparr>is_used := False\<rparr>)"
      and pz: "ptr \<noteq> 0"
      unfolding a_def by blast
    have "pool_free (freed s a n) ptr = AssertFail"
      using pz n(5) by (simp add: pool_free_def Let_def a_def)
    with n show ?thesis
      unfolding a_def [symmetric]
      by (intro exI [of _ n] exI [of _ "freed s a n"]) (simp add: freed_def sizeof_memory_node_def)
  qed
  have run: "\<exists>s'. pool_free s ptr = Ok s' \<and>
         num_allocations (block s') = num_allocations (block s) - 1 \<and>
         pool_free s' ptr = AssertFail"
    if "create_memory_pool m0 c = Some s0" "unat m0 + unat c + 80 < 2 ^ 64"
      "ordinary_run s0 [] ops = Some (s, live)" "ptr \<in> set live"
  proof -
    from created_run_sound [OF that(1,2,3)] obtain bs where
      bs: "sound s bs" "set live = (\<lambda>a. a + sizeof_memory_node) ` set bs"
      by blast
    with that(4) have "ptr - sizeof_memory_node \<in> set bs" by auto
    from live [OF bs(1) this] show ?thesis by blast
  qed
  have "pool_free s 0 = Ok s" by (simp add: pool_free_def)
  with live run show ?thesis by blast
qed

theorem pool_free_contract_witness:
  "pool_free frag_mid 0 = Ok frag_mid \<and>
   pool_wf frag_mid [4136, 4232, 4328] \<and>
   create_memory_pool 4096 376 = Some pool376 \<and>
   ordinary_run pool376 [] [Alloc 8, Alloc 8, Alloc 8, Alloc 8, Alloc 8, Free 4224, Free 4320]
     = Some (frag_mid, [4368, 4272, 4176]) \<and>
   (\<exists>s'. pool_free frag_mid 4272 = Ok s' \<and>
      used_memory (block s') = 96 \<and> num_allocations (block s') = 2 \<and>
      map_option is_used (nodes s' 4232) = Some False \<and>
      pool_wf s' [4136, 4328] \<and> pool_free s' 4272 = AssertFail)"
proof -
  have snd: "sound frag_mid [4136, 4232, 4328]"
    using wf_frag_mid by (simp add: sound_def)
  have "unat (4096 :: addr) + unat (376 :: size_t) + 80 < 2 ^ 64" by simp
  with pool_free_contract [of frag_mid "[4136, 4232, 4328]" 4272 4096 376 pool376
      "[Alloc 8, Alloc 8, Alloc 8, Alloc 8, Alloc 8, Free 4224, Free 4320]"
      "[4368, 4272, 4176]"]
    snd pool376_created frag_mid_run wf_frag_mid
  show ?thesis
    by (auto simp: sizeof_memory_node_def frag_mid_eq)
qed

text \<open>
  C7 as stated fails for a foreign pointer: on the fresh pool of 150 bytes,
  \<^verbatim>\<open>pool_free\<close> of the address 4176 reads a header at 4136, where none has been
  written (the C program finds the 0xCC fill there: the flag byte is not zero, the
  assertion passes, and the pool pointer 0xCCCCCCCCCCCCCCCC is dereferenced). The call
  neither fails the assertion nor succeeds.
\<close>

theorem free_foreign_pointer_counterexample:
  "create_memory_pool 4096 150 = Some pool150 \<and> pool_free pool150 4176 = Fault"
  by (simp add: pool150_created pool150_free_foreign)

text \<open>
  C8, amended. In a well-formed pool let a record have free space on both sides, and let
  a request's aligned size plus header equal the left gap plus the record's footprint
  plus the right gap. Then \<^verbatim>\<open>pool_free\<close> of the record returns, and the following
  \<^verbatim>\<open>pool_alloc\<close> returns a non-null data pointer; when no gap at a lower address
  holds the request, that pointer lies 40 bytes into the merged span, at its start.
\<close>

theorem coalesce_by_removal:
  assumes "pool_wf s as" and "i < length as" and "nodes s (as ! i) = Some n"
    and "G = gaps (nodes s) (data_start s) (data_end s) as"
    and "0 < snd (G ! i)" and "0 < snd (G ! Suc i)"
    and "unat (align_size sz) + 40 = snd (G ! i) + footprint n + snd (G ! Suc i)"
  shows "\<exists>s1 s2 p. pool_free s (as ! i + sizeof_memory_node) = Ok s1 \<and>
           pool_alloc s1 (pool_addr s) sz = Some (Ok (s2, p)) \<and> p \<noteq> 0 \<and>
           ((\<forall>j<i. snd (G ! j) < unat (align_size sz) + 40) \<longrightarrow> unat p = fst (G ! i) + 40)"
  using assms by (rule free_then_alloc)

theorem coalesce_by_removal_witness:
  "\<exists>s1 s2. pool_free frag_mid 4272 = Ok s1 \<and> pool_alloc s1 4096 104 = Some (Ok (s2, 4224))"
proof -
  let ?G = "[(4136, 0), (4184, 48), (4280, 48), (4376, 96)] :: (nat \<times> nat) list"
  have n: "nodes frag_mid ([4136, 4232, 4328] ! 1)
             = Some \<lparr>node_size = 8, is_used = True, prev = 4136, nxt = 4328, pool = 4096\<rparr>"
    by (simp add: frag_mid_eq)
  have sp: "unat (align_size 104) + 40
              = snd (?G ! 1) + footprint \<lparr>node_size = 8, is_used = True, prev = 4136,
                                            nxt = 4328, pool = 4096\<rparr> + snd (?G ! Suc 1)"
    by (simp add: align_size_def MIN_ALIGNMENT_def footprint_def)
  from coalesce_by_removal [OF wf_frag_mid _ n gaps_frag_mid [symmetric] _ _ sp]
  obtain s1 s2 p where
    r: "pool_free frag_mid ([4136, 4232, 4328] ! 1 + sizeof_memory_node) = Ok s1"
       "pool_alloc s1 (pool_addr frag_mid) 104 = Some (Ok (s2, p))"
       "(\<forall>j<1. snd (?G ! j) < unat (align_size 104) + 40) \<longrightarrow> unat p = fst (?G ! 1) + 40"
    by auto
  have "unat p = unat (4224 :: 64 word)"
    using r(3) by (simp add: align_size_def MIN_ALIGNMENT_def)
  then have "p = 4224" by (simp only: word_unat_eq_iff)
  with r(1,2) show ?thesis
    by (auto simp: sizeof_memory_node_def frag_mid_eq)
qed

text \<open>
  C8 as stated fails when a gap at a lower address is large enough: in \<open>frag_low\<close>
  the record at 4376 has 48 free bytes on both sides, the merged span starts at 4328 and
  has 144 bytes, and the request of 104 bytes lands in the gap of 144 bytes at 4136.
\<close>

theorem coalesce_lower_gap_counterexample:
  "pool_wf frag_low [4280, 4376] \<and>
   gaps (nodes frag_low) (data_start frag_low) (data_end frag_low) [4280, 4376]
     = [(4136, 144), (4328, 48), (4424, 48)] \<and>
   map_option footprint (nodes frag_low 4376) = Some 48 \<and>
   unat (align_size 104) + 40 = 48 + 48 + 48 \<and>
   alloc_after_free frag_low (4376 + sizeof_memory_node) 104 = Some (Ok 4176) \<and>
   (4176 :: addr) \<noteq> 4328 + sizeof_memory_node"
  unfolding gaps_frag_low
  by (simp add: wf_frag_low)
     (simp add: frag_low_realloc [simplified] sizeof_memory_node_def align_size_def
        MIN_ALIGNMENT_def, simp add: frag_low_eq footprint_def)

text \<open>
  C9. For every active pool (a non-null pool handle), \<^verbatim>\<open>pool_alloc\<close> with the
  requested size 0 returns NULL: \<open>align_size 0\<close> is 0, and the zero aligned size is
  rejected before any placement search, leaving the heap as it was.
\<close>

theorem zero_size_rejected:
  "pool_addr s \<noteq> 0 \<Longrightarrow> align_size 0 = 0 \<and> pool_alloc s (pool_addr s) 0 = Some (Ok (s, 0))"
  by (simp add: pool_alloc_def align_size_def MIN_ALIGNMENT_def)

theorem zero_size_rejected_witness:
  "align_size 0 = 0 \<and> pool_alloc pool150_a 4096 0 = Some (Ok (pool150_a, 0))"
  using zero_size_rejected [of pool150_a] by (simp add: pool150_a_def)

text \<open>
  C10. Whenever \<^verbatim>\<open>pool_alloc\<close> returns NULL, for any requested size, the heap is
  exactly as it was before the call: \<open>used_memory\<close>, \<open>num_allocations\<close>, the list
  head and every record. This holds in every heap in which the returned null is not the
  data pointer of a record placed in the last 40 bytes of the address space (none of the
  three \<^verbatim>\<open>return NULL\<close> statements is preceded by a write); in every sound heap, where
  no such record exists; and so in every heap reached from \<^verbatim>\<open>create_memory_pool\<close> by an
  ordinary run, among them the heap whose single record ends beyond \<open>upper_limit\<close>.
\<close>

theorem alloc_failure_atomic:
  "(pool_alloc s pl sz = Some (Ok (s', 0)) \<and> nodes s' (0 - sizeof_memory_node) = None
      \<longrightarrow> s' = s) \<and>
   (sound s as \<and> pool_alloc s pl sz = Some (Ok (s', 0)) \<longrightarrow> s' = s) \<and>
   (create_memory_pool m c = Some s0 \<and> unat m + unat c + 80 < 2 ^ 64 \<and>
    ordinary_run s0 [] ops = Some (s, live) \<and> pool_alloc s pl sz = Some (Ok (s', 0))
      \<longrightarrow> s' = s)"
proof (intro conjI impI)
  assume "pool_alloc s pl sz = Some (Ok (s', 0)) \<and> nodes s' (0 - sizeof_memory_node) = None"
  then show "s' = s"
    using pool_alloc_result [of s pl sz s' 0] by auto
next
  assume "sound s as \<and> pool_alloc s pl sz = Some (Ok (s', 0))"
  then show "s' = s"
    using sound_alloc_null by blast
next
  assume a: "create_memory_pool m c = Some s0 \<and> unat m + unat c + 80 < 2 ^ 64 \<and>
    ordinary_run s0 [] ops = Some (s, live) \<and> pool_alloc s pl sz = Some (Ok (s', 0))"
  then obtain bs where "sound s bs"
    using created_run_sound [of m c s0 ops s live] by blast
  with a show "s' = s"
    using sound_alloc_null by blast
qed

theorem alloc_failure_atomic_witness:
  "create_memory_pool 4096 150 = Some pool150 \<and>
   ordinary_run pool150 [] [Alloc 100] = Some (pool150_big, [4176]) \<and>
   overhang pool150_big [4136] \<and> \<not> pool_wf pool150_big [4136] \<and>
   nodes pool150_big (0 - sizeof_memory_node) = None \<and>
   pool_alloc pool150_big 4096 8 = Some (Ok (pool150_big, 0)) \<and>
   sound pool150_a [4136] \<and>
   pool_alloc pool150_a 4096 20 = Some (Ok (pool150_a, 0)) \<and>
   pool_alloc pool150_a 4096 0 = Some (Ok (pool150_a, 0))"
proof -
  have snd_a: "sound pool150_a [4136]"
    using wf_pool150_a by (simp add: sound_def)
  note a20 = alloc_failure_atomic [of pool150_a 4096 20 pool150_a "[4136]"]
  note a0 = alloc_failure_atomic [of pool150_a 4096 0 pool150_a "[4136]"]
  have snd: "sound pool150_big [4136]"
    using overhang_pool150_big by (simp add: sound_def)
  have far: "nodes pool150_big (0 - sizeof_memory_node) = None"
    by (simp add: pool150_big_def sizeof_memory_node_def)
  have nwf: "\<not> pool_wf pool150_big [4136]"
    by (simp add: pool150_big_def wf_eval)
  have "unat (4096 :: addr) + unat (150 :: size_t) + 80 < 2 ^ 64" by simp
  with alloc_failure_atomic [of pool150_big 4096 8 pool150_big "[4136]" 4096 150 pool150
      "[Alloc 100]" "[4176]"]
    snd far nwf pool150_created pool150_run_100 pool150_big_alloc_8 overhang_pool150_big
    snd_a a20 a0 pool150_a_alloc_20 pool150_a_alloc_0
  show ?thesis by simp
qed

end
